theory Spec2Isabelle
  imports Main "HOL-Library.Extended_Nat" "HOL-Library.AList"
begin


section \<open>The grid of the pathfinding view (graph.js, class Grid)\<close>

text \<open>
  A cell object is identified by its position \<open>(col, row)\<close>: the fields \<open>row\<close> and
  \<open>col\<close> of a cell never change, and every reference to a cell (\<open>grid.start\<close>,
  \<open>grid.goal\<close>, \<open>cell.parent\<close>, the entries of the BFS queue and of the visited set)
  is modelled by that position. The pixel origin and the unused A* scores of a cell are
  left out, and so are the pixel size of the grid and of its cells, from which the
  constructor computes \<open>cols\<close> and \<open>rows\<close> once. \<open>distance\<close> is a JavaScript number that starts at \<open>Infinity\<close>; it is an
  extended natural number here, so that \<open>Infinity + 1 = Infinity\<close>.
\<close>

datatype cell_type = Empty | Wall | Start | Goal

datatype cell_state = Unvisited | Frontier | Visited | Path

type_synonym pos = "int \<times> int"

record cell =
  ctype :: cell_type
  cstate :: cell_state
  cparent :: "pos option"
  cdistance :: enat

record grid =
  cols :: int
  rows :: int
  cells :: "cell list list"
  start :: "pos option"
  goal :: "pos option"

text \<open>\<open>cells[row][col]\<close>, read and written through a reference.\<close>

definition cellAt :: "grid \<Rightarrow> pos \<Rightarrow> cell" where
  "cellAt g p = cells g ! nat (snd p) ! nat (fst p)"

definition updCell :: "grid \<Rightarrow> pos \<Rightarrow> (cell \<Rightarrow> cell) \<Rightarrow> grid" where
  "updCell g p f =
     g\<lparr>cells := (cells g)[nat (snd p) := (cells g ! nat (snd p))[nat (fst p) := f (cellAt g p)]]\<rparr>"

definition isValidCell :: "grid \<Rightarrow> int \<Rightarrow> int \<Rightarrow> bool" where
  "isValidCell g col row \<longleftrightarrow> col \<ge> 0 \<and> col < cols g \<and> row \<ge> 0 \<and> row < rows g"

definition setStart :: "grid \<Rightarrow> int \<Rightarrow> int \<Rightarrow> grid" where
  "setStart g col row =
     (let g1 = (case start g of
                  Some s \<Rightarrow> updCell g s (\<lambda>c. c\<lparr>ctype := Empty\<rparr>)
                | None \<Rightarrow> g)
      in if isValidCell g1 col row
         then (updCell g1 (col, row) (\<lambda>c. c\<lparr>ctype := Start\<rparr>))\<lparr>start := Some (col, row)\<rparr>
         else g1)"

definition setGoal :: "grid \<Rightarrow> int \<Rightarrow> int \<Rightarrow> grid" where
  "setGoal g col row =
     (let g1 = (case goal g of
                  Some t \<Rightarrow> updCell g t (\<lambda>c. c\<lparr>ctype := Empty\<rparr>)
                | None \<Rightarrow> g)
      in if isValidCell g1 col row
         then (updCell g1 (col, row) (\<lambda>c. c\<lparr>ctype := Goal\<rparr>))\<lparr>goal := Some (col, row)\<rparr>
         else g1)"

definition toggleWall :: "grid \<Rightarrow> int \<Rightarrow> int \<Rightarrow> grid" where
  "toggleWall g col row =
     (if isValidCell g col row
      then (if ctype (cellAt g (col, row)) = Empty
            then updCell g (col, row) (\<lambda>c. c\<lparr>ctype := Wall\<rparr>)
            else if ctype (cellAt g (col, row)) = Wall
            then updCell g (col, row) (\<lambda>c. c\<lparr>ctype := Empty\<rparr>)
            else g)
      else g)"

definition getCell :: "grid \<Rightarrow> int \<Rightarrow> int \<Rightarrow> pos option" where
  "getCell g col row = (if isValidCell g col row then Some (col, row) else None)"

definition directions :: "(int \<times> int) list" where
  "directions = [(-1, 0), (1, 0), (0, -1), (0, 1)]"

definition getNeighbors :: "grid \<Rightarrow> pos \<Rightarrow> pos list" where
  "getNeighbors g cell =
     List.map_filter
       (\<lambda>(dx, dy). case getCell g (fst cell + dx) (snd cell + dy) of
                      None \<Rightarrow> None
                    | Some n \<Rightarrow> if ctype (cellAt g n) \<noteq> Wall then Some n else None)
       directions"

definition emptyCell :: cell where
  "emptyCell = \<lparr>ctype = Empty, cstate = Unvisited, cparent = None, cdistance = \<infinity>\<rparr>"

text \<open>
  The constructor: \<open>cols = floor(width / cellSize)\<close>, \<open>rows = floor(height / cellSize)\<close>,
  a \<open>rows \<times> cols\<close> array of empty cells, then the default start and goal. The quotient
  is the integer quotient for the sizes the constructor is called with, a non-negative
  width and height and a positive cell size; it is used with no other.
\<close>

definition initializeGrid :: "int \<Rightarrow> int \<Rightarrow> grid" where
  "initializeGrid c r =
     (let g = \<lparr>cols = c, rows = r,
               cells = replicate (nat r) (replicate (nat c) emptyCell),
               start = None, goal = None\<rparr>
      in setGoal (setStart g 1 1) (c - 2) (r - 2))"

definition newGrid :: "int \<Rightarrow> int \<Rightarrow> int \<Rightarrow> grid" where
  "newGrid width height cellSize = initializeGrid (width div cellSize) (height div cellSize)"

text \<open>\<open>Grid.reset\<close>: every cell of the array loses its run state, its type stays.\<close>

definition resetCell :: "cell \<Rightarrow> cell" where
  "resetCell c = c\<lparr>cstate := Unvisited, cparent := None, cdistance := \<infinity>\<rparr>"

definition reset :: "grid \<Rightarrow> grid" where
  "reset g = g\<lparr>cells := map (map resetCell) (cells g)\<rparr>"

section \<open>Breadth-first search (class BFSVisualizer)\<close>

text \<open>
  The fields of the visualizer that the traversal reads or writes. Canvas, colours and the
  animation speed only drive the rendering and the length of the delays. The two
  visualizer classes have the fields \<open>isRunning\<close>, \<open>isPaused\<close> and \<open>visitedCount\<close> in
  common; they are the fields of the record both extend.
\<close>

record visualizer =
  isRunning :: bool
  isPaused :: bool
  visitedCount :: nat

record bfs_vis = visualizer +
  grid :: grid
  pathLength :: int

record bfs_result =
  pathFound :: bool
  path :: "pos list"

text \<open>
  \<open>reconstructPath\<close> follows the parent references until it meets \<open>null\<close>. Nothing in
  the loop bounds the walk, so not returning is the value \<open>None\<close>.
\<close>

partial_function (option) reconstructLoop :: "grid \<Rightarrow> pos option \<Rightarrow> pos list \<Rightarrow> pos list option" where
  "reconstructLoop g current p =
     (case current of
        None \<Rightarrow> Some p
      | Some c \<Rightarrow> reconstructLoop g (cparent (cellAt g c)) (c # p))"

declare reconstructLoop.simps [code]

definition reconstructPath :: "grid \<Rightarrow> pos \<Rightarrow> pos list option" where
  "reconstructPath g goalCell = reconstructLoop g (Some goalCell) []"

text \<open>The \<open>for\<close> loop over the neighbours of the dequeued cell.\<close>

fun exploreNeighbors :: "pos \<Rightarrow> pos list \<Rightarrow> grid \<times> pos list \<times> pos set \<Rightarrow> grid \<times> pos list \<times> pos set" where
  "exploreNeighbors current [] (g, queue, visited) = (g, queue, visited)"
| "exploreNeighbors current (neighbor # ns) (g, queue, visited) =
     (if neighbor \<notin> visited
      then exploreNeighbors current ns
             (updCell g neighbor
                (\<lambda>c. c\<lparr>cparent := Some current,
                        cdistance := cdistance (cellAt g current) + 1,
                        cstate := Frontier\<rparr>),
              queue @ [neighbor],
              insert neighbor visited)
      else exploreNeighbors current ns (g, queue, visited))"

text \<open>
  One turn of the \<open>while\<close> loop is split at the goal test: \<open>dequeue\<close> takes the head of
  the queue, marks it visited and counts it; \<open>expand\<close> is the rest of the body.
\<close>

definition dequeue :: "bfs_vis \<Rightarrow> pos \<Rightarrow> bfs_vis" where
  "dequeue v current =
     v\<lparr>grid := updCell (grid v) current (\<lambda>c. c\<lparr>cstate := Visited\<rparr>),
       visitedCount := visitedCount v + 1\<rparr>"

definition expand :: "bfs_vis \<Rightarrow> pos \<Rightarrow> pos list \<Rightarrow> pos set \<Rightarrow> bfs_vis \<times> pos list \<times> pos set" where
  "expand v current queue visited =
     (case exploreNeighbors current (getNeighbors (grid v) current) (grid v, queue, visited) of
        (g, queue', visited') \<Rightarrow> (v\<lparr>grid := g\<rparr>, queue', visited'))"

text \<open>
  The \<open>while\<close> loop of \<open>runBFS\<close> in a run during which no control method is called:
  \<open>isPaused\<close> then keeps the value the loop condition has just read, and the inner
  waiting loop \<open>while (isPaused && isRunning)\<close> is passed at once.
\<close>

function bfsLoop :: "bfs_vis \<Rightarrow> pos list \<Rightarrow> pos set \<Rightarrow> (bfs_vis \<times> bfs_result) option" where
  "bfsLoop v queue visited =
     (if queue \<noteq> [] \<and> \<not> isPaused v then
        (let current = hd queue;
             v1 = dequeue v current
         in if Some current = goal (grid v1) then
              (case reconstructPath (grid v1) current of
                 None \<Rightarrow> None
               | Some p \<Rightarrow> Some (v1\<lparr>pathLength := int (length p) - 1\<rparr>,
                                 \<lparr>pathFound = True, path = p\<rparr>))
            else
              (case expand v1 current (tl queue) visited of
                 (v2, queue2, visited2) \<Rightarrow> bfsLoop v2 queue2 visited2))
      else Some (v, \<lparr>pathFound = False, path = []\<rparr>))"
  by pat_completeness auto

text \<open>
  \<open>runBFS\<close>: the start cell gets distance 0 and state frontier and is the only entry of
  the queue and of the visited set. With no start cell the first assignment throws, which
  is the value \<open>None\<close>.
\<close>

definition runBFS :: "bfs_vis \<Rightarrow> (bfs_vis \<times> bfs_result) option" where
  "runBFS v =
     (case start (grid v) of
        None \<Rightarrow> None
      | Some s \<Rightarrow>
          bfsLoop (v\<lparr>grid := updCell (grid v) s (\<lambda>c. c\<lparr>cdistance := 0, cstate := Frontier\<rparr>)\<rparr>)
            [s] {s})"

text \<open>
  What \<open>startBFS\<close> does before it calls \<open>runBFS\<close>: the flags and counters are set and the
  grid is reset.
\<close>

definition prepareBFS :: "bfs_vis \<Rightarrow> bfs_vis" where
  "prepareBFS v =
     v\<lparr>isRunning := True, isPaused := False, visitedCount := 0, pathLength := 0,
       grid := reset (grid v)\<rparr>"

text \<open>
  \<open>BFSVisualizer.reset\<close>. The queue and the visited set are local variables of the running
  \<open>runBFS\<close>; \<open>reset\<close> does not reach them.
\<close>

definition resetBFS :: "bfs_vis \<Rightarrow> bfs_vis" where
  "resetBFS v =
     v\<lparr>isRunning := False, isPaused := False, visitedCount := 0, pathLength := 0,
       grid := reset (grid v)\<rparr>"

section \<open>The directed graph (graph.js, classes GraphNode and Graph)\<close>

text \<open>
  A node object is identified by its \<open>id\<close>, the key under which \<open>Graph.nodes\<close> holds it;
  an edge object is the value that \<open>node.neighbors\<close> holds under the id of its target, so
  \<open>edge.node\<close> is the node with that key. Both maps are JavaScript \<open>Map\<close>s, which iterate
  in insertion order: they are association lists, \<open>Map.set\<close> replacing the value of a key
  in place or appending a new key. Position, label and the unused \<open>distance\<close> of a node are
  left out.
\<close>

datatype node_state = NodeUnvisited | Visiting | NodeVisited | Cycle

datatype edge_state = Normal | CycleEdge

type_synonym node_id = nat

record edge =
  weight :: nat
  estate :: edge_state

record gnode =
  neighbors :: "(node_id \<times> edge) list"
  nstate :: node_state
  nparent :: "node_id option"
  discoveryTime :: int
  finishTime :: int

record graph =
  nodes :: "(node_id \<times> gnode) list"
  nodeCount :: nat

definition getNode :: "graph \<Rightarrow> node_id \<Rightarrow> gnode option" where
  "getNode g nodeId = map_of (nodes g) nodeId"

definition updNode :: "graph \<Rightarrow> node_id \<Rightarrow> (gnode \<Rightarrow> gnode) \<Rightarrow> graph" where
  "updNode g nodeId f = g\<lparr>nodes := AList.map_entry nodeId f (nodes g)\<rparr>"

definition newNode :: gnode where
  "newNode = \<lparr>neighbors = [], nstate = NodeUnvisited, nparent = None,
              discoveryTime = -1, finishTime = -1\<rparr>"

definition emptyGraph :: graph where
  "emptyGraph = \<lparr>nodes = [], nodeCount = 0\<rparr>"

definition addNode :: "graph \<Rightarrow> graph" where
  "addNode g = g\<lparr>nodes := AList.update (nodeCount g) newNode (nodes g),
                 nodeCount := nodeCount g + 1\<rparr>"

definition addNeighbor :: "gnode \<Rightarrow> node_id \<Rightarrow> nat \<Rightarrow> gnode" where
  "addNeighbor n neighborId w =
     n\<lparr>neighbors := AList.update neighborId \<lparr>weight = w, estate = Normal\<rparr> (neighbors n)\<rparr>"

definition addEdge :: "graph \<Rightarrow> node_id \<Rightarrow> node_id \<Rightarrow> graph" where
  "addEdge g fromId toId =
     (case (getNode g fromId, getNode g toId) of
        (Some fromNode, Some toNode) \<Rightarrow> updNode g fromId (\<lambda>n. addNeighbor n toId 1)
      | _ \<Rightarrow> g)"

definition resetNode :: "gnode \<Rightarrow> gnode" where
  "resetNode n =
     n\<lparr>nstate := NodeUnvisited, nparent := None, discoveryTime := -1, finishTime := -1,
       neighbors := map (\<lambda>(k, e). (k, e\<lparr>estate := Normal\<rparr>)) (neighbors n)\<rparr>"

definition resetGraph :: "graph \<Rightarrow> graph" where
  "resetGraph g = g\<lparr>nodes := map (\<lambda>(k, n). (k, resetNode n)) (nodes g)\<rparr>"

section \<open>Depth-first search (class DFSVisualizer)\<close>

text \<open>
  The fields of the visualizer that the traversal reads or writes; \<open>cycles\<close> holds the node
  lists of the cycles found, in the order they were found.
\<close>

record dfs_vis = visualizer +
  graph :: graph
  cycleCount :: nat
  time :: int
  cycles :: "node_id list list"

text \<open>
  \<open>findCycleNodes\<close> walks the parent references from \<open>fromNode\<close> until it meets \<open>toNode\<close>
  or \<open>null\<close>, putting each node in front of the list that starts as \<open>[toNode]\<close>. Nothing
  bounds the walk, so not returning is the value \<open>None\<close>, which is also the value of
  reading through a reference to a node that is not in the graph.
\<close>

partial_function (option) findCycleLoop ::
  "graph \<Rightarrow> node_id \<Rightarrow> node_id option \<Rightarrow> node_id list \<Rightarrow> node_id list option" where
  "findCycleLoop g toNode current cycleNodes =
     (case current of
        None \<Rightarrow> Some cycleNodes
      | Some c \<Rightarrow>
          if c \<noteq> toNode
          then (case getNode g c of
                  None \<Rightarrow> None
                | Some n \<Rightarrow> findCycleLoop g toNode (nparent n) (c # cycleNodes))
          else Some cycleNodes)"

declare findCycleLoop.simps [code]

definition findCycleNodes :: "graph \<Rightarrow> node_id \<Rightarrow> node_id \<Rightarrow> node_id list option" where
  "findCycleNodes g fromNode toNode = findCycleLoop g toNode (Some fromNode) [toNode]"

text \<open>
  \<open>highlightCycle\<close>: the edge from \<open>fromNode\<close> to \<open>toNode\<close> gets state cycle, if there is
  one; the cycle is computed and pushed on \<open>cycles\<close>; every node of it gets state cycle; and
  for every index \<open>i\<close> the edge from node \<open>i\<close> to node \<open>(i + 1) % length\<close> of the cycle gets
  state cycle, if there is one.
\<close>

definition markEdge :: "graph \<Rightarrow> node_id \<Rightarrow> node_id \<Rightarrow> graph" where
  "markEdge g a b =
     updNode g a (\<lambda>n. n\<lparr>neighbors := AList.map_entry b (\<lambda>e. e\<lparr>estate := CycleEdge\<rparr>) (neighbors n)\<rparr>)"

definition highlightCycle :: "dfs_vis \<Rightarrow> node_id \<Rightarrow> node_id \<Rightarrow> dfs_vis option" where
  "highlightCycle v fromNode toNode =
     (let g1 = markEdge (graph v) fromNode toNode
      in case findCycleNodes g1 fromNode toNode of
           None \<Rightarrow> None
         | Some cycleNodes \<Rightarrow>
             (let g2 = fold (\<lambda>node g. updNode g node (\<lambda>n. n\<lparr>nstate := Cycle\<rparr>)) cycleNodes g1;
                  g3 = fold (\<lambda>i g. markEdge g (cycleNodes ! i)
                                       (cycleNodes ! ((i + 1) mod length cycleNodes)))
                         [0..<length cycleNodes] g2
              in Some (v\<lparr>graph := g3, cycles := cycles v @ [cycleNodes]\<rparr>)))"

text \<open>
  \<open>dfsVisit\<close> in a run during which no control method is called, so that the waiting
  loops \<open>while (isPaused && isRunning)\<close> are passed at once. \<open>beginVisit\<close> is what it does
  before its \<open>for\<close> loop, \<open>endVisit\<close> what it does after it, and \<open>dfsEdges\<close> is the loop
  over the targets of the node's edges in insertion order, with the \<open>return\<close> that leaves
  \<open>dfsVisit\<close> from inside the loop when \<open>isRunning\<close> is false and with \<open>endVisit\<close> when
  the loop is through. The recursion of \<open>dfsVisit\<close> is bounded by nothing but the call
  stack; here it carries its depth as fuel, and running out of fuel is the value \<open>None\<close>.
\<close>

definition beginVisit :: "dfs_vis \<Rightarrow> node_id \<Rightarrow> dfs_vis" where
  "beginVisit v node =
     v\<lparr>graph := updNode (graph v) node (\<lambda>n. n\<lparr>nstate := Visiting, discoveryTime := time v + 1\<rparr>),
       time := time v + 1, visitedCount := visitedCount v + 1\<rparr>"

definition endVisit :: "dfs_vis \<Rightarrow> node_id \<Rightarrow> dfs_vis" where
  "endVisit v node =
     v\<lparr>graph := updNode (graph v) node (\<lambda>n. n\<lparr>nstate := NodeVisited, finishTime := time v + 1\<rparr>),
       time := time v + 1\<rparr>"

fun dfsEdges ::
  "(dfs_vis \<Rightarrow> node_id \<Rightarrow> dfs_vis option) \<Rightarrow> node_id \<Rightarrow> node_id list \<Rightarrow> dfs_vis \<Rightarrow> dfs_vis option" where
  "dfsEdges visit node [] v = Some (endVisit v node)"
| "dfsEdges visit node (neighborId # rest) v =
     (case getNode (graph v) neighborId of
        None \<Rightarrow> None
      | Some neighbor \<Rightarrow>
          (case (if nstate neighbor = NodeUnvisited
                 then visit (v\<lparr>graph := updNode (graph v) neighborId (\<lambda>n. n\<lparr>nparent := Some node\<rparr>)\<rparr>)
                        neighborId
                 else if nstate neighbor = Visiting
                 then map_option (\<lambda>v'. v'\<lparr>cycleCount := cycleCount v' + 1\<rparr>)
                        (highlightCycle v node neighborId)
                 else Some v) of
             None \<Rightarrow> None
           | Some v' \<Rightarrow> if \<not> isRunning v' then Some v' else dfsEdges visit node rest v'))"

primrec dfsVisit :: "nat \<Rightarrow> dfs_vis \<Rightarrow> node_id \<Rightarrow> dfs_vis option" where
  "dfsVisit 0 = (\<lambda>v node. None)"
| "dfsVisit (Suc fuel) = (\<lambda>v node.
     case getNode (graph v) node of
       None \<Rightarrow> None
     | Some n \<Rightarrow> dfsEdges (dfsVisit fuel) node (map fst (neighbors n)) (beginVisit v node))"

text \<open>
  \<open>runDFS\<close>: the \<open>for\<close> loop over \<open>getAllNodes()\<close>, the nodes in insertion order.
\<close>

fun runDFSLoop :: "nat \<Rightarrow> node_id list \<Rightarrow> dfs_vis \<Rightarrow> dfs_vis option" where
  "runDFSLoop fuel [] v = Some v"
| "runDFSLoop fuel (node # rest) v =
     (case getNode (graph v) node of
        None \<Rightarrow> None
      | Some n \<Rightarrow>
          if nstate n = NodeUnvisited \<and> \<not> isPaused v
          then (case dfsVisit fuel v node of
                  None \<Rightarrow> None
                | Some v' \<Rightarrow> runDFSLoop fuel rest v')
          else runDFSLoop fuel rest v)"

definition runDFS :: "nat \<Rightarrow> dfs_vis \<Rightarrow> dfs_vis option" where
  "runDFS fuel v = runDFSLoop fuel (map fst (nodes (graph v))) v"

text \<open>What \<open>startDFS\<close> does before it calls \<open>runDFS\<close>.\<close>

definition prepareDFS :: "dfs_vis \<Rightarrow> dfs_vis" where
  "prepareDFS v =
     v\<lparr>isRunning := True, isPaused := False, visitedCount := 0, cycleCount := 0, time := 0,
       cycles := [], graph := resetGraph (graph v)\<rparr>"

section \<open>The notions the statements are measured against\<close>

text \<open>
  The shape the constructor establishes and every method keeps: \<open>cells\<close> has \<open>rows\<close>
  rows of \<open>cols\<close> cells, and \<open>start\<close> and \<open>goal\<close>, when set, refer to cells of the array.
\<close>

definition wf_grid :: "grid \<Rightarrow> bool" where
  "wf_grid g \<longleftrightarrow>
     length (cells g) = nat (rows g) \<and>
     list_all (\<lambda>r. length r = nat (cols g)) (cells g) \<and>
     (case start g of None \<Rightarrow> True | Some s \<Rightarrow> isValidCell g (fst s) (snd s)) \<and>
     (case goal g of None \<Rightarrow> True | Some t \<Rightarrow> isValidCell g (fst t) (snd t))"

text \<open>The positions of the cells of the grid.\<close>

definition validCells :: "grid \<Rightarrow> pos set" where
  "validCells g = {p. isValidCell g (fst p) (snd p)}"

text \<open>
  Two cells are adjacent
  when they differ by one step in exactly one coordinate; a cell is passable when it lies
  on the grid and is not a wall; a walk is a non-empty list of passable cells, each
  adjacent to the next. \<open>hopsTo g s t n\<close>: some walk from \<open>s\<close> to \<open>t\<close> has \<open>n\<close> edges.
  \<open>minHops g s t n\<close>: \<open>n\<close> is the least such number.
\<close>

definition adjacent :: "pos \<Rightarrow> pos \<Rightarrow> bool" where
  "adjacent p q \<longleftrightarrow> \<bar>fst p - fst q\<bar> + \<bar>snd p - snd q\<bar> = 1"

definition passable :: "grid \<Rightarrow> pos \<Rightarrow> bool" where
  "passable g p \<longleftrightarrow> isValidCell g (fst p) (snd p) \<and> ctype (cellAt g p) \<noteq> Wall"

fun walk :: "grid \<Rightarrow> pos list \<Rightarrow> bool" where
  "walk g [] = False"
| "walk g [p] = passable g p"
| "walk g (p # q # ps) = (passable g p \<and> adjacent p q \<and> walk g (q # ps))"

definition hopsTo :: "grid \<Rightarrow> pos \<Rightarrow> pos \<Rightarrow> nat \<Rightarrow> bool" where
  "hopsTo g s t n \<longleftrightarrow> (\<exists>ps. walk g ps \<and> hd ps = s \<and> last ps = t \<and> length ps = Suc n)"

definition reachable :: "grid \<Rightarrow> pos \<Rightarrow> pos \<Rightarrow> bool" where
  "reachable g s t \<longleftrightarrow> (\<exists>n. hopsTo g s t n)"

definition minHops :: "grid \<Rightarrow> pos \<Rightarrow> pos \<Rightarrow> nat \<Rightarrow> bool" where
  "minHops g s t n \<longleftrightarrow> hopsTo g s t n \<and> (\<forall>m. hopsTo g s t m \<longrightarrow> n \<le> m)"

text \<open>
  The configurations of the loop of \<open>runBFS\<close>: the visualizer, the queue and the visited
  set. \<open>bfsInit\<close> is the configuration \<open>runBFS\<close> enters the loop with, \<open>continues\<close> holds
  when the loop takes a whole turn from a configuration (the queue is not empty, the run is
  not paused, and the cell dequeued is not the goal), \<open>bfsTurn\<close> is that turn, and
  \<open>bfsReaches c c'\<close> holds when the loop started in \<open>c\<close> comes to its head in \<open>c'\<close>.
\<close>

definition bfsInit :: "bfs_vis \<Rightarrow> pos \<Rightarrow> bfs_vis \<times> pos list \<times> pos set" where
  "bfsInit v s =
     (v\<lparr>grid := updCell (grid v) s (\<lambda>c. c\<lparr>cdistance := 0, cstate := Frontier\<rparr>)\<rparr>, [s], {s})"

definition bfsTurn :: "bfs_vis \<times> pos list \<times> pos set \<Rightarrow> bfs_vis \<times> pos list \<times> pos set" where
  "bfsTurn = (\<lambda>(v, queue, visited). expand (dequeue v (hd queue)) (hd queue) (tl queue) visited)"

definition continues :: "bfs_vis \<times> pos list \<times> pos set \<Rightarrow> bool" where
  "continues = (\<lambda>(v, queue, visited).
     queue \<noteq> [] \<and> \<not> isPaused v \<and> Some (hd queue) \<noteq> goal (grid (dequeue v (hd queue))))"


text \<open>
  The graph as a set of nodes and edges: the ids of its nodes, the targets of the edges of
  a node, and whether there is an edge from \<open>a\<close> to \<open>b\<close>. A closed walk is a non-empty list
  of nodes with an edge from each to the next and from the last to the first; a graph has
  a cycle exactly when it has a closed walk. A graph is well formed when the ids of its
  nodes are distinct and every edge leads to a node of the graph, as \<open>addNode\<close>, \<open>addEdge\<close>
  and \<open>removeNode\<close> keep it.
\<close>

definition ids :: "graph \<Rightarrow> node_id list" where
  "ids g = map fst (nodes g)"

definition succs :: "graph \<Rightarrow> node_id \<Rightarrow> node_id list" where
  "succs g i = (case getNode g i of None \<Rightarrow> [] | Some n \<Rightarrow> map fst (neighbors n))"

definition hasEdge :: "graph \<Rightarrow> node_id \<Rightarrow> node_id \<Rightarrow> bool" where
  "hasEdge g a b \<longleftrightarrow> b \<in> set (succs g a)"

definition closedWalk :: "graph \<Rightarrow> node_id list \<Rightarrow> bool" where
  "closedWalk g c \<longleftrightarrow> c \<noteq> [] \<and> successively (hasEdge g) c \<and> hasEdge g (last c) (hd c)"

definition wf_graph :: "graph \<Rightarrow> bool" where
  "wf_graph g \<longleftrightarrow> distinct (ids g) \<and> (\<forall>a b. hasEdge g a b \<longrightarrow> b \<in> set (ids g))"

text \<open>
  The state of the edge from \<open>a\<close> to \<open>b\<close>, if there is one; \<open>marked g c\<close> holds when the
  edges along the cycle \<open>c\<close>, the ones \<open>highlightCycle\<close> marks, have state cycle; and the
  list of all discovery and finish times of a graph.
\<close>

definition estateOf :: "graph \<Rightarrow> node_id \<Rightarrow> node_id \<Rightarrow> edge_state option" where
  "estateOf g a b =
     (case getNode g a of None \<Rightarrow> None | Some n \<Rightarrow> map_option estate (map_of (neighbors n) b))"

definition marked :: "graph \<Rightarrow> node_id list \<Rightarrow> bool" where
  "marked g c \<longleftrightarrow>
     list_all (\<lambda>i. estateOf g (c ! i) (c ! ((i + 1) mod length c)) = Some CycleEdge) [0..<length c]"

definition timestamps :: "graph \<Rightarrow> int list" where
  "timestamps g = map (\<lambda>(i, n). discoveryTime n) (nodes g) @ map (\<lambda>(i, n). finishTime n) (nodes g)"

section \<open>Concrete inputs\<close>

text \<open>
  \<open>grid5\<close> is \<open>new Grid(100, 100, 20)\<close>: five columns, five rows, no wall, start (1,1),
  goal (3,3); \<open>walled5\<close> is that grid with walls on the four neighbours of the goal. The
  graphs are built with \<open>addNode\<close> and \<open>addEdge\<close>, in the order written from the inside
  out.
\<close>

definition grid5 :: grid where
  "grid5 = newGrid 100 100 20"

definition vis5 :: bfs_vis where
  "vis5 = \<lparr>isRunning = False, isPaused = False, visitedCount = 0, grid = grid5, pathLength = 0\<rparr>"

definition walled5 :: grid where
  "walled5 = toggleWall (toggleWall (toggleWall (toggleWall grid5 2 3) 4 3) 3 2) 3 4"

definition visWalled5 :: bfs_vis where
  "visWalled5 = \<lparr>isRunning = False, isPaused = False, visitedCount = 0, grid = walled5, pathLength = 0\<rparr>"

definition newDFS :: "graph \<Rightarrow> dfs_vis" where
  "newDFS g = \<lparr>isRunning = False, isPaused = False, visitedCount = 0, graph = g,
               cycleCount = 0, time = 0, cycles = []\<rparr>"

definition triangle :: graph where
  "triangle = addEdge (addEdge (addEdge (addNode (addNode (addNode emptyGraph))) 0 1) 1 2) 2 0"

definition selfLoopGraph :: graph where
  "selfLoopGraph = addEdge (addEdge (addEdge (addNode (addNode emptyGraph)) 0 1) 1 0) 0 0"

definition selfLoopGraph2 :: graph where
  "selfLoopGraph2 = addEdge (addEdge (addEdge (addNode (addNode emptyGraph)) 0 0) 0 1) 1 0"

definition dag3 :: graph where
  "dag3 = addEdge (addEdge (addEdge (addNode (addNode (addNode emptyGraph))) 0 1) 0 2) 1 2"

section \<open>Invariants and other notions of the proofs\<close>

text \<open>
  For the search on the grid: the measure under which the loop ends, the grid as an array
  of the right shape, what an update of the run fields leaves alone (\<open>maze_eq\<close>), and the
  invariant of the loop. In \<open>bfs_inv g0 s g q vis\<close>, \<open>g0\<close> is the grid the run started on,
  \<open>s\<close> its start cell, \<open>g\<close> the grid now, \<open>q\<close> the queue and \<open>vis\<close> the visited set: every
  discovered cell holds its minimum hop count, the queue holds at most two consecutive
  distances in order, and a cell that has left the queue has all its neighbours discovered.
\<close>

definition bfs_measure :: "grid \<Rightarrow> pos list \<Rightarrow> pos set \<Rightarrow> nat" where
  "bfs_measure g queue visited = card (validCells g - visited) + length queue"

definition shape_ok :: "grid \<Rightarrow> bool" where
  "shape_ok g \<longleftrightarrow> length (cells g) = nat (rows g) \<and> list_all (\<lambda>r. length r = nat (cols g)) (cells g)"

definition discover :: "grid \<Rightarrow> pos \<Rightarrow> cell \<Rightarrow> cell" where
  "discover g cur c = c\<lparr>cparent := Some cur, cdistance := cdistance (cellAt g cur) + 1, cstate := Frontier\<rparr>"

definition maze_eq :: "grid \<Rightarrow> grid \<Rightarrow> bool" where
  "maze_eq g0 g \<longleftrightarrow>
     shape_ok g \<and> cols g = cols g0 \<and> rows g = rows g0 \<and> start g = start g0 \<and> goal g = goal g0 \<and>
     (\<forall>p\<in>validCells g0. ctype (cellAt g p) = ctype (cellAt g0 p))"

definition levels :: "grid \<Rightarrow> pos list \<Rightarrow> bool" where
  "levels g q \<longleftrightarrow>
     (\<exists>d q1 q2. q = q1 @ q2 \<and> (\<forall>a\<in>set q1. cdistance (cellAt g a) = enat d) \<and>
        (\<forall>a\<in>set q2. cdistance (cellAt g a) = enat (Suc d)) \<and> (q1 = [] \<longrightarrow> q2 = []))"

definition bfs_inv :: "grid \<Rightarrow> pos \<Rightarrow> grid \<Rightarrow> pos list \<Rightarrow> pos set \<Rightarrow> bool" where
  "bfs_inv g0 s g q vis \<longleftrightarrow>
     maze_eq g0 g \<and> passable g0 s \<and> s \<in> vis \<and>
     cdistance (cellAt g s) = 0 \<and> cparent (cellAt g s) = None \<and>
     set q \<subseteq> vis \<and> distinct q \<and> vis \<subseteq> validCells g0 \<and>
     (\<forall>c\<in>vis. \<exists>n. cdistance (cellAt g c) = enat n \<and> minHops g0 s c n) \<and>
     (\<forall>c\<in>vis. c \<noteq> s \<longrightarrow>
        (\<exists>p. cparent (cellAt g c) = Some p \<and> p \<in> vis \<and> p \<notin> set q \<and> adjacent p c \<and>
             cdistance (cellAt g c) = cdistance (cellAt g p) + 1)) \<and>
     levels g q \<and>
     (\<forall>c\<in>vis. c \<notin> set q \<longrightarrow> (\<forall>n. adjacent c n \<and> passable g0 n \<longrightarrow> n \<in> vis)) \<and>
     (\<forall>c\<in>validCells g0. cstate (cellAt g c) =
        (if c \<in> set q then Frontier else if c \<in> vis then Visited else Unvisited)) \<and>
     (\<forall>c\<in>validCells g0. c \<notin> vis \<longrightarrow> cparent (cellAt g c) = None \<and> cdistance (cellAt g c) = \<infinity>) \<and>
     (\<forall>c\<in>vis. c \<notin> set q \<longrightarrow> Some c \<noteq> goal g0)"

definition tree_ok :: "grid \<Rightarrow> pos \<Rightarrow> grid \<Rightarrow> pos set \<Rightarrow> bool" where
  "tree_ok g0 s g vis \<longleftrightarrow>
     cparent (cellAt g s) = None \<and>
     (\<forall>c\<in>vis. \<exists>n. cdistance (cellAt g c) = enat n \<and> minHops g0 s c n) \<and>
     (\<forall>c\<in>vis. c \<noteq> s \<longrightarrow>
        (\<exists>p. cparent (cellAt g c) = Some p \<and> p \<in> vis \<and> adjacent p c \<and>
             cdistance (cellAt g c) = cdistance (cellAt g p) + 1))"

definition bfs_post :: "grid \<Rightarrow> pos \<Rightarrow> bfs_vis \<Rightarrow> bfs_result \<Rightarrow> bool" where
  "bfs_post g0 s v' r \<longleftrightarrow>
     maze_eq g0 (grid v') \<and>
     (\<forall>c\<in>validCells g0. cstate (cellAt (grid v') c) = Visited \<longrightarrow>
        (\<exists>n. cdistance (cellAt (grid v') c) = enat n \<and> minHops g0 s c n)) \<and>
     (if pathFound r
      then (\<exists>t n. goal g0 = Some t \<and> minHops g0 s t n \<and> walk g0 (path r) \<and> hd (path r) = s \<and>
              last (path r) = t \<and> length (path r) = Suc n \<and> pathLength v' = int n)
      else path r = [] \<and> (\<forall>t. goal g0 = Some t \<longrightarrow> \<not> reachable g0 s t) \<and>
           (\<forall>c\<in>validCells g0. cstate (cellAt (grid v') c) = Visited \<longleftrightarrow> reachable g0 s c))"

text \<open>
  For the search on the graph: the fields of a node read through its id, and the invariant
  of \<open>dfsVisit\<close>. In \<open>dfs_inv g0 v S\<close>, \<open>S\<close> is the stack of the nodes being visited, the
  innermost first: they are exactly the nodes in state visiting or cycle, each is the
  parent of the one above it and has an edge to it, every recorded cycle is a closed walk
  whose edges are marked, and \<open>cycleCount\<close> is the number of recorded cycles. \<open>time_inv\<close>
  says that the times handed out so far lie between 1 and \<open>time\<close> and are pairwise distinct.
\<close>

definition stateOf :: "graph \<Rightarrow> node_id \<Rightarrow> node_state option" where
  "stateOf g i = map_option nstate (getNode g i)"

definition parentOf :: "graph \<Rightarrow> node_id \<Rightarrow> node_id option option" where
  "parentOf g i = map_option nparent (getNode g i)"

definition discOf :: "graph \<Rightarrow> node_id \<Rightarrow> int option" where
  "discOf g i = map_option discoveryTime (getNode g i)"

definition finOf :: "graph \<Rightarrow> node_id \<Rightarrow> int option" where
  "finOf g i = map_option finishTime (getNode g i)"

definition chainOk :: "graph \<Rightarrow> graph \<Rightarrow> node_id \<Rightarrow> node_id \<Rightarrow> bool" where
  "chainOk g0 g a b \<longleftrightarrow> parentOf g a = Some (Some b) \<and> hasEdge g0 b a"

definition dfs_inv :: "graph \<Rightarrow> dfs_vis \<Rightarrow> node_id list \<Rightarrow> bool" where
  "dfs_inv g0 v S \<longleftrightarrow>
     ids (graph v) = ids g0 \<and> succs (graph v) = succs g0 \<and> wf_graph g0 \<and>
     isRunning v \<and> \<not> isPaused v \<and>
     distinct S \<and>
     (\<forall>i. i \<in> set S \<longleftrightarrow> stateOf (graph v) i = Some Visiting \<or> stateOf (graph v) i = Some Cycle) \<and>
     successively (chainOk g0 (graph v)) S \<and>
     (S \<noteq> [] \<longrightarrow> parentOf (graph v) (last S) = Some None) \<and>
     (\<forall>i. stateOf (graph v) i = Some NodeUnvisited \<longrightarrow> parentOf (graph v) i = Some None) \<and>
     (\<forall>c\<in>set (cycles v). closedWalk g0 c) \<and> cycleCount v = length (cycles v) \<and>
     (\<forall>c\<in>set (cycles v). marked (graph v) c)"

definition time_inv :: "dfs_vis \<Rightarrow> bool" where
  "time_inv v \<longleftrightarrow>
     0 \<le> time v \<and>
     (\<forall>i d. stateOf (graph v) i \<noteq> Some NodeUnvisited \<longrightarrow> discOf (graph v) i = Some d \<longrightarrow>
        0 < d \<and> d \<le> time v) \<and>
     (\<forall>i f. stateOf (graph v) i = Some NodeVisited \<longrightarrow> finOf (graph v) i = Some f \<longrightarrow>
        f \<le> time v) \<and>
     (\<forall>i d f. stateOf (graph v) i = Some NodeVisited \<longrightarrow> discOf (graph v) i = Some d \<longrightarrow>
        finOf (graph v) i = Some f \<longrightarrow> d < f) \<and>
     (\<forall>i j d. i \<noteq> j \<longrightarrow> stateOf (graph v) i \<noteq> Some NodeUnvisited \<longrightarrow>
        stateOf (graph v) j \<noteq> Some NodeUnvisited \<longrightarrow> discOf (graph v) i = Some d \<longrightarrow>
        discOf (graph v) j \<noteq> Some d) \<and>
     (\<forall>i j f. i \<noteq> j \<longrightarrow> stateOf (graph v) i = Some NodeVisited \<longrightarrow>
        stateOf (graph v) j = Some NodeVisited \<longrightarrow> finOf (graph v) i = Some f \<longrightarrow>
        finOf (graph v) j \<noteq> Some f) \<and>
     (\<forall>i j d. stateOf (graph v) i \<noteq> Some NodeUnvisited \<longrightarrow>
        stateOf (graph v) j = Some NodeVisited \<longrightarrow> discOf (graph v) i = Some d \<longrightarrow>
        finOf (graph v) j \<noteq> Some d)"

definition unv :: "dfs_vis \<Rightarrow> node_id set" where
  "unv v = {i. stateOf (graph v) i = Some NodeUnvisited}"

definition done_nodes :: "dfs_vis \<Rightarrow> node_id set" where
  "done_nodes v = {i. stateOf (graph v) i = Some NodeVisited}"

definition enter :: "dfs_vis \<Rightarrow> node_id \<Rightarrow> node_id list \<Rightarrow> dfs_vis" where
  "enter v node S =
     (case S of
        [] \<Rightarrow> v
      | p # _ \<Rightarrow> v\<lparr>graph := updNode (graph v) node (\<lambda>n. n\<lparr>nparent := Some p\<rparr>)\<rparr>)"

definition visit_ok :: "graph \<Rightarrow> nat \<Rightarrow> bool" where
  "visit_ok g0 k \<longleftrightarrow>
     (\<forall>v node S.
        dfs_inv g0 v S \<longrightarrow> time_inv v \<longrightarrow> stateOf (graph v) node = Some NodeUnvisited \<longrightarrow>
        (S \<noteq> [] \<longrightarrow> hasEdge g0 (hd S) node) \<longrightarrow> card (unv v) \<le> k \<longrightarrow>
        (\<exists>v'. dfsVisit k (enter v node S) node = Some v' \<and> dfs_inv g0 v' S \<and> time_inv v' \<and>
              stateOf (graph v') node = Some NodeVisited \<and> unv v' \<subseteq> unv v - {node} \<and>
              done_nodes v \<subseteq> done_nodes v'))"

text \<open>
  For the converse, that a run on a graph with a cycle records one. As long as no cycle
  is recorded, no node is in state cycle and every edge that leaves a finished node leads
  to a node that finished before it: \<open>fin_inv\<close>. \<open>visit_fin\<close> says that a call of
  \<open>dfsVisit\<close> which returns with no cycle recorded keeps it.
\<close>

definition fin_inv :: "dfs_vis \<Rightarrow> bool" where
  "fin_inv v \<longleftrightarrow>
     (\<forall>i. stateOf (graph v) i \<noteq> Some Cycle) \<and>
     (\<forall>a b. hasEdge (graph v) a b \<longrightarrow> stateOf (graph v) a = Some NodeVisited \<longrightarrow>
        stateOf (graph v) b = Some NodeVisited \<and>
        the (finOf (graph v) b) < the (finOf (graph v) a))"

definition visit_fin :: "graph \<Rightarrow> nat \<Rightarrow> bool" where
  "visit_fin g0 k \<longleftrightarrow>
     (\<forall>v node S v'.
        dfs_inv g0 v S \<longrightarrow> time_inv v \<longrightarrow> stateOf (graph v) node = Some NodeUnvisited \<longrightarrow>
        (S \<noteq> [] \<longrightarrow> hasEdge g0 (hd S) node) \<longrightarrow> card (unv v) \<le> k \<longrightarrow> fin_inv v \<longrightarrow>
        dfsVisit k (enter v node S) node = Some v' \<longrightarrow> cycles v' = [] \<longrightarrow> fin_inv v')"

definition edges_all :: "(node_id \<Rightarrow> node_id \<Rightarrow> bool) \<Rightarrow> graph \<Rightarrow> bool" where
  "edges_all P g \<longleftrightarrow> list_all (\<lambda>(i, n). list_all (\<lambda>(b, e). P i b) (neighbors n)) (nodes g)"

section \<open>The loop of the search on the grid ends\<close>

lemma cols_updCell [simp]: "cols (updCell g p f) = cols g"
  and rows_updCell [simp]: "rows (updCell g p f) = rows g"
  and start_updCell [simp]: "start (updCell g p f) = start g"
  and goal_updCell [simp]: "goal (updCell g p f) = goal g"
  by (simp_all add: updCell_def)

lemma isValidCell_updCell [simp]: "isValidCell (updCell g p f) = isValidCell g"
  by (simp add: isValidCell_def fun_eq_iff)

lemma validCells_eq: "validCells g = {0..<cols g} \<times> {0..<rows g}"
  by (auto simp: validCells_def isValidCell_def)

lemma finite_validCells [simp]: "finite (validCells g)"
  by (simp add: validCells_eq)

lemma validCells_updCell [simp]: "validCells (updCell g p f) = validCells g"
  by (simp add: validCells_def)

lemma getNeighbors_valid: "n \<in> set (getNeighbors g c) \<Longrightarrow> n \<in> validCells g"
  by (auto simp: getNeighbors_def directions_def List.map_filter_def getCell_def validCells_def
      split: if_splits)

lemma exploreNeighbors_measure:
  "set ns \<subseteq> validCells g \<Longrightarrow> exploreNeighbors cur ns (g, q, vis) = (g', q', vis') \<Longrightarrow>
   validCells g' = validCells g \<and> bfs_measure g' q' vis' = bfs_measure g q vis"
proof (induction ns arbitrary: g q vis)
  case Nil
  then show ?case by simp
next
  case (Cons n ns)
  show ?case
  proof (cases "n \<in> vis")
    case True
    with Cons show ?thesis by simp
  next
    case False
    from Cons.prems False obtain g1 where
      e: "exploreNeighbors cur ns (g1, q @ [n], insert n vis) = (g', q', vis')"
      and g1: "validCells g1 = validCells g"
      by auto
    from Cons.prems g1 have "set ns \<subseteq> validCells g1" by simp
    from Cons.IH [OF this e] have r: "validCells g' = validCells g1"
      "bfs_measure g' q' vis' = bfs_measure g1 (q @ [n]) (insert n vis)" by simp_all
    from Cons.prems False have "n \<in> validCells g - vis" by simp
    then have "card (validCells g - insert n vis) = card (validCells g - vis) - 1"
      "card (validCells g - vis) > 0"
      by (auto simp: card_gt_0_iff)
    then have "bfs_measure g1 (q @ [n]) (insert n vis) = bfs_measure g q vis"
      by (simp add: bfs_measure_def g1)
    with r g1 show ?thesis by simp
  qed
qed

lemma expand_measure:
  assumes "expand v cur q vis = (v', q', vis')"
  shows "bfs_measure (grid v') q' vis' = bfs_measure (grid v) q vis"
proof -
  from assms obtain g' where
    e: "exploreNeighbors cur (getNeighbors (grid v) cur) (grid v, q, vis) = (g', q', vis')"
    and v': "grid v' = g'"
    by (auto simp: expand_def split: prod.splits)
  have "set (getNeighbors (grid v) cur) \<subseteq> validCells (grid v)"
    using getNeighbors_valid by blast
  from exploreNeighbors_measure [OF this e] v' show ?thesis by simp
qed

lemma dequeue_measure:
  "bfs_measure (grid (dequeue v cur)) q vis = bfs_measure (grid v) q vis"
  by (simp add: dequeue_def bfs_measure_def)

termination bfsLoop
proof (relation "measure (\<lambda>(v, queue, visited). bfs_measure (grid v) queue visited)", goal_cases)
  case 1
  then show ?case by simp
next
  case (2 v queue visited current v1 x y z zz)
  then have "expand (dequeue v (hd queue)) (hd queue) (tl queue) visited = (x, z, zz)" by simp
  from expand_measure [OF this]
  have "bfs_measure (grid x) z zz = bfs_measure (grid v) (tl queue) visited"
    by (simp add: dequeue_measure)
  moreover from 2 have "queue \<noteq> []" by simp
  ultimately show ?case by (cases queue) (simp_all add: bfs_measure_def)
qed

declare bfsLoop.simps [simp del]

section \<open>Walks and hop counts\<close>

lemma walk_snoc:
  "walk g (ps @ [d]) \<longleftrightarrow> (if ps = [] then passable g d else walk g ps \<and> adjacent (last ps) d \<and> passable g d)"
  by (induction g ps rule: walk.induct) auto

lemma walk_passable: "walk g ps \<Longrightarrow> p \<in> set ps \<Longrightarrow> passable g p"
  by (induction g ps rule: walk.induct) auto

lemma hopsTo_0: "hopsTo g s t 0 \<longleftrightarrow> s = t \<and> passable g s"
  unfolding hopsTo_def
  by (auto simp: length_Suc_conv intro: exI [of _ "[s]"])

lemma hopsTo_Suc:
  "hopsTo g s d (Suc n) \<longleftrightarrow> (\<exists>c. hopsTo g s c n \<and> adjacent c d \<and> passable g d)"
proof
  assume "hopsTo g s d (Suc n)"
  then obtain ps where ps: "walk g ps" "hd ps = s" "last ps = d" "length ps = Suc (Suc n)"
    by (auto simp: hopsTo_def)
  then obtain qs where qs: "ps = qs @ [d]" "qs \<noteq> []"
    by (metis append_butlast_last_id length_0_conv length_Suc_conv list.distinct(1) butlast.simps(2) list.sel(3) length_butlast diff_Suc_1 nat.distinct(1) length_tl)
  with ps have "walk g qs" "adjacent (last qs) d" "passable g d" "hd qs = s" "length qs = Suc n"
    by (auto simp: walk_snoc)
  then show "\<exists>c. hopsTo g s c n \<and> adjacent c d \<and> passable g d"
    unfolding hopsTo_def by blast
next
  assume "\<exists>c. hopsTo g s c n \<and> adjacent c d \<and> passable g d"
  then obtain c ps where "walk g ps" "hd ps = s" "last ps = c" "length ps = Suc n"
    "adjacent c d" "passable g d"
    by (auto simp: hopsTo_def)
  then have "walk g (ps @ [d]) \<and> hd (ps @ [d]) = s \<and> last (ps @ [d]) = d \<and> length (ps @ [d]) = Suc (Suc n)"
    by (auto simp: walk_snoc)
  then show "hopsTo g s d (Suc n)"
    unfolding hopsTo_def by blast
qed

lemma hopsTo_passable: "hopsTo g s t n \<Longrightarrow> passable g t"
  by (cases n) (auto simp: hopsTo_0 hopsTo_Suc)

lemma ex_minHops:
  assumes "hopsTo g s t m"
  shows "\<exists>n\<le>m. minHops g s t n"
proof -
  let ?n = "LEAST k. hopsTo g s t k"
  have "hopsTo g s t ?n" using assms by (rule LeastI)
  moreover have "\<forall>k. hopsTo g s t k \<longrightarrow> ?n \<le> k" by (simp add: Least_le)
  moreover have "?n \<le> m" using assms by (rule Least_le)
  ultimately show ?thesis unfolding minHops_def by blast
qed

lemma minHops_unique: "minHops g s t n \<Longrightarrow> minHops g s t m \<Longrightarrow> n = m"
  by (auto simp: minHops_def intro: antisym)

lemma minHops_pred:
  assumes "minHops g s d (Suc n)"
  shows "\<exists>c. minHops g s c n \<and> adjacent c d \<and> passable g d"
proof -
  from assms obtain c where c: "hopsTo g s c n" "adjacent c d" "passable g d"
    by (auto simp: minHops_def hopsTo_Suc)
  from ex_minHops [OF c(1)] obtain k where k: "k \<le> n" "minHops g s c k" by blast
  then have "hopsTo g s c k" by (simp add: minHops_def)
  with c have "hopsTo g s d (Suc k)" unfolding hopsTo_Suc by blast
  with assms have "Suc n \<le> Suc k" by (auto simp: minHops_def)
  with k have "k = n" by simp
  with k c show ?thesis by blast
qed

lemma adjacent_iff:
  "adjacent c n \<longleftrightarrow> n \<in> {(fst c - 1, snd c), (fst c + 1, snd c), (fst c, snd c - 1), (fst c, snd c + 1)}"
  unfolding adjacent_def by (cases c; cases n) (auto simp: abs_if split: if_splits)

lemma getNeighbors_iff: "n \<in> set (getNeighbors g c) \<longleftrightarrow> adjacent c n \<and> passable g n"
  unfolding adjacent_iff
  by (cases n) (auto simp: getNeighbors_def directions_def List.map_filter_def getCell_def passable_def
      split: if_splits)

lemma distinct_getNeighbors: "distinct (getNeighbors g c)"
  by (auto simp: getNeighbors_def directions_def List.map_filter_def getCell_def)

lemma length_nth_update_row:
  "length (xs[i := (xs ! i)[j := x]] ! n) = length (xs ! n)"
  by (cases "i < length xs") (auto simp: nth_list_update list_update_beyond)

lemma shape_ok_updCell [simp]: "shape_ok (updCell g p f) = shape_ok g"
  by (simp add: shape_ok_def updCell_def list_all_length length_nth_update_row)

lemma cellAt_updCell:
  assumes "shape_ok g" "p \<in> validCells g" "q \<in> validCells g"
  shows "cellAt (updCell g p f) q = (if q = p then f (cellAt g p) else cellAt g q)"
proof -
  from assms have *: "nat (snd p) < length (cells g)" "nat (fst p) < length (cells g ! nat (snd p))"
    by (auto simp: shape_ok_def validCells_def isValidCell_def list_all_length)
  from assms have "q = p \<longleftrightarrow> nat (snd q) = nat (snd p) \<and> nat (fst q) = nat (fst p)"
    by (cases p; cases q) (auto simp: validCells_def isValidCell_def)
  with * show ?thesis
    by (auto simp: cellAt_def updCell_def nth_list_update)
qed

section \<open>Editing the grid with coordinates out of range\<close>

lemma toggleWall_out_of_range: "\<not> isValidCell g col row \<Longrightarrow> toggleWall g col row = g"
  by (simp add: toggleWall_def)

text \<open>
  C7. \<open>setStart\<close> clears the type of the current start cell before it tests the
  coordinates: on the scenario grid \<open>setStart(-1, 0)\<close> is out of range, and afterwards the
  cell (1,1) has type empty while \<open>grid.start\<close> still refers to it. \<open>setGoal(-1, 0)\<close> does
  the same to the goal cell (3,3).
\<close>

theorem setStart_out_of_range_clears_start:
  "\<not> isValidCell grid5 (-1) 0 \<and>
   ctype (cellAt grid5 (1, 1)) = Start \<and>
   ctype (cellAt (setStart grid5 (-1) 0) (1, 1)) = Empty \<and>
   start (setStart grid5 (-1) 0) = Some (1, 1) \<and>
   ctype (cellAt grid5 (3, 3)) = Goal \<and>
   ctype (cellAt (setGoal grid5 (-1) 0) (3, 3)) = Empty \<and>
   goal (setGoal grid5 (-1) 0) = Some (3, 3)"
  by code_simp

section \<open>The invariant of the search on the grid\<close>

lemma exploreNeighbors_spec:
  assumes "shape_ok g" "set ns \<subseteq> validCells g" "distinct ns" "cur \<in> vis" "cur \<in> validCells g"
    and "exploreNeighbors cur ns (g, q, vis) = (g', q', vis')"
  shows "vis' = vis \<union> set ns \<and> q' = q @ filter (\<lambda>n. n \<notin> vis) ns \<and>
         shape_ok g' \<and> cols g' = cols g \<and> rows g' = rows g \<and> start g' = start g \<and> goal g' = goal g \<and>
         (\<forall>c\<in>validCells g. cellAt g' c =
            (if c \<in> set ns \<and> c \<notin> vis then discover g cur (cellAt g c) else cellAt g c))"
  using assms
proof (induction ns arbitrary: g q vis)
  case Nil
  then show ?case by simp
next
  case (Cons n ns)
  show ?case
  proof (cases "n \<in> vis")
    case True
    with Cons.prems have "exploreNeighbors cur ns (g, q, vis) = (g', q', vis')" by simp
    from Cons.IH [OF _ _ _ _ _ this] Cons.prems True show ?thesis by auto
  next
    case False
    define g1 where "g1 = updCell g n (\<lambda>c. c\<lparr>cparent := Some cur, cdistance := cdistance (cellAt g cur) + 1, cstate := Frontier\<rparr>)"
    from Cons.prems False have e: "exploreNeighbors cur ns (g1, q @ [n], insert n vis) = (g', q', vis')"
      by (simp add: g1_def)
    have n: "n \<in> validCells g" "n \<notin> set ns" "n \<noteq> cur" using Cons.prems False by auto
    have g1: "shape_ok g1" "validCells g1 = validCells g" "cols g1 = cols g" "rows g1 = rows g"
      "start g1 = start g" "goal g1 = goal g"
      using Cons.prems by (simp_all add: g1_def)
    have c1: "cellAt g1 c = (if c = n then discover g cur (cellAt g c) else cellAt g c)"
      if "c \<in> validCells g" for c
      using that n Cons.prems unfolding g1_def discover_def by (simp add: cellAt_updCell)
    have cur1: "cellAt g1 cur = cellAt g cur" using c1 [of cur] n Cons.prems by simp
    have IH: "vis' = insert n vis \<union> set ns \<and> q' = (q @ [n]) @ filter (\<lambda>x. x \<notin> insert n vis) ns \<and>
         shape_ok g' \<and> cols g' = cols g1 \<and> rows g' = rows g1 \<and> start g' = start g1 \<and> goal g' = goal g1 \<and>
         (\<forall>c\<in>validCells g1. cellAt g' c =
            (if c \<in> set ns \<and> c \<notin> insert n vis then discover g1 cur (cellAt g1 c) else cellAt g1 c))"
      using Cons.prems g1 by (intro Cons.IH [OF _ _ _ _ _ e]) auto
    have f: "filter (\<lambda>x. x \<notin> insert n vis) ns = filter (\<lambda>x. x \<notin> vis) ns"
      using n by (intro filter_cong) auto
    have d: "discover g1 cur = discover g cur" by (simp add: discover_def cur1 fun_eq_iff)
    show ?thesis
      using IH False n g1 f by (auto simp: c1 d)
  qed
qed

lemma maze_eq_validCells: "maze_eq g0 g \<Longrightarrow> validCells g = validCells g0"
  by (simp add: maze_eq_def validCells_def isValidCell_def)

lemma maze_eq_passable: "maze_eq g0 g \<Longrightarrow> passable g = passable g0"
  by (auto simp: maze_eq_def passable_def validCells_def isValidCell_def fun_eq_iff)

lemma maze_eq_getNeighbors:
  assumes "maze_eq g0 g"
  shows "getNeighbors g c = getNeighbors g0 c"
proof -
  have "(case getCell g x y of None \<Rightarrow> None
         | Some n \<Rightarrow> if ctype (cellAt g n) \<noteq> Wall then Some n else None) =
        (case getCell g0 x y of None \<Rightarrow> None
         | Some n \<Rightarrow> if ctype (cellAt g0 n) \<noteq> Wall then Some n else None)" for x y
    using assms by (auto simp: maze_eq_def getCell_def validCells_def isValidCell_def)
  then show ?thesis by (simp add: getNeighbors_def)
qed

lemma maze_eq_updCell:
  assumes "maze_eq g0 g" "p \<in> validCells g0" "\<And>c. ctype (f c) = ctype c"
  shows "maze_eq g0 (updCell g p f)"
proof -
  from assms have v: "validCells g = validCells g0" by (simp add: maze_eq_validCells)
  from assms show ?thesis
    unfolding maze_eq_def by (auto simp: cellAt_updCell v)
qed

lemma levels_hd_le:
  assumes "levels g (cur # qt)" "cdistance (cellAt g cur) = enat d" "a \<in> set (cur # qt)"
  shows "enat d \<le> cdistance (cellAt g a)"
proof -
  from assms(1) obtain d0 q1 q2 where l: "cur # qt = q1 @ q2"
    "\<forall>a\<in>set q1. cdistance (cellAt g a) = enat d0"
    "\<forall>a\<in>set q2. cdistance (cellAt g a) = enat (Suc d0)" "q1 = [] \<longrightarrow> q2 = []"
    unfolding levels_def by blast
  then have "q1 \<noteq> []" by auto
  with l have "cur \<in> set q1" by (cases q1) auto
  with l assms have "d0 = d" by auto
  from assms(3) l(1) have "a \<in> set q1 \<or> a \<in> set q2" by (metis Un_iff set_append)
  with l \<open>d0 = d\<close> show ?thesis by auto
qed

lemma closer_discovered:
  assumes "bfs_inv g0 s g q vis"
  shows "minHops g0 s c n \<Longrightarrow> \<forall>a\<in>set q. enat n \<le> cdistance (cellAt g a) \<Longrightarrow> c \<in> vis"
proof (induction n arbitrary: c)
  case 0
  then have "c = s" by (simp add: minHops_def hopsTo_0)
  with assms show ?case by (simp add: bfs_inv_def)
next
  case (Suc n)
  from minHops_pred [OF Suc.prems(1)] obtain b where
    b: "minHops g0 s b n" "adjacent b c" "passable g0 c" by blast
  from Suc.prems(2) have le: "\<forall>a\<in>set q. enat n \<le> cdistance (cellAt g a)"
    by (metis Suc_ile_eq order_less_imp_le)
  from Suc.IH [OF b(1) le] have bv: "b \<in> vis" .
  with assms obtain k where k: "cdistance (cellAt g b) = enat k" "minHops g0 s b k"
    unfolding bfs_inv_def by blast
  with b have "k = n" by (simp add: minHops_unique)
  have "b \<notin> set q"
  proof
    assume "b \<in> set q"
    with Suc.prems(2) have "enat (Suc n) \<le> cdistance (cellAt g b)" by blast
    with k \<open>k = n\<close> show False by simp
  qed
  with assms bv b show ?case unfolding bfs_inv_def by blast
qed

lemma bfs_turn:
  assumes inv: "bfs_inv g0 s g (cur # qt) vis"
    and ng: "Some cur \<noteq> goal g0"
    and e: "exploreNeighbors cur (getNeighbors (updCell g cur (\<lambda>c. c\<lparr>cstate := Visited\<rparr>)) cur)
              (updCell g cur (\<lambda>c. c\<lparr>cstate := Visited\<rparr>), qt, vis) = (g', q', vis')"
  shows "bfs_inv g0 s g' q' vis' \<and> vis \<subseteq> vis' \<and>
         (\<forall>c\<in>vis. cdistance (cellAt g' c) = cdistance (cellAt g c) \<and>
                  cparent (cellAt g' c) = cparent (cellAt g c))"
proof -
  define g1 where "g1 = updCell g cur (\<lambda>c. c\<lparr>cstate := Visited\<rparr>)"
  define nbrs where "nbrs = getNeighbors g0 cur"
  define new where "new = filter (\<lambda>n. n \<notin> vis) nbrs"
  from inv have m: "maze_eq g0 g" and ps: "passable g0 s" and sv: "s \<in> vis"
    and ds: "cdistance (cellAt g s) = 0" and pars: "cparent (cellAt g s) = None"
    and qv: "set (cur # qt) \<subseteq> vis" and dq: "distinct (cur # qt)" and vv: "vis \<subseteq> validCells g0"
    and I3: "\<forall>c\<in>vis. \<exists>n. cdistance (cellAt g c) = enat n \<and> minHops g0 s c n"
    and I4: "\<forall>c\<in>vis. c \<noteq> s \<longrightarrow>
        (\<exists>p. cparent (cellAt g c) = Some p \<and> p \<in> vis \<and> p \<notin> set (cur # qt) \<and> adjacent p c \<and>
             cdistance (cellAt g c) = cdistance (cellAt g p) + 1)"
    and lv: "levels g (cur # qt)"
    and I6: "\<forall>c\<in>vis. c \<notin> set (cur # qt) \<longrightarrow> (\<forall>n. adjacent c n \<and> passable g0 n \<longrightarrow> n \<in> vis)"
    and I7: "\<forall>c\<in>validCells g0. cstate (cellAt g c) =
        (if c \<in> set (cur # qt) then Frontier else if c \<in> vis then Visited else Unvisited)"
    and I8: "\<forall>c\<in>validCells g0. c \<notin> vis \<longrightarrow> cparent (cellAt g c) = None \<and> cdistance (cellAt g c) = \<infinity>"
    and I9: "\<forall>c\<in>vis. c \<notin> set (cur # qt) \<longrightarrow> Some c \<noteq> goal g0"
    unfolding bfs_inv_def by blast+
  have cv: "cur \<in> vis" "cur \<in> validCells g0" "cur \<notin> set qt" using qv vv dq by auto
  have vvD: "c \<in> validCells g0" if "c \<in> vis" for c using that vv by auto
  have sval: "s \<in> validCells g0" using sv by (rule vvD)
  have vg: "validCells g = validCells g0" using m by (rule maze_eq_validCells)
  have sg: "shape_ok g" using m by (simp add: maze_eq_def)
  have m1: "maze_eq g0 g1" unfolding g1_def using m cv by (intro maze_eq_updCell) simp_all
  have c1: "cellAt g1 c = (if c = cur then (cellAt g c)\<lparr>cstate := Visited\<rparr> else cellAt g c)"
    if "c \<in> validCells g0" for c
    unfolding g1_def using that cv sg vg by (simp add: cellAt_updCell)
  have nb: "getNeighbors g1 cur = nbrs" unfolding nbrs_def using m1 by (rule maze_eq_getNeighbors)
  have nbv: "set nbrs \<subseteq> validCells g0" unfolding nbrs_def using getNeighbors_valid by blast
  have nbd: "distinct nbrs" unfolding nbrs_def by (rule distinct_getNeighbors)
  have nbi: "n \<in> set nbrs \<longleftrightarrow> adjacent cur n \<and> passable g0 n" for n
    unfolding nbrs_def by (rule getNeighbors_iff)
  have e1: "exploreNeighbors cur nbrs (g1, qt, vis) = (g', q', vis')"
    using e nb by (simp add: g1_def)
  have v1: "validCells g1 = validCells g0" using m1 by (rule maze_eq_validCells)
  have sg1: "shape_ok g1" using m1 by (simp add: maze_eq_def)
  from exploreNeighbors_spec [OF sg1 _ nbd cv(1) _ e1] nbv cv v1
  have r: "vis' = vis \<union> set nbrs" "q' = qt @ new" "shape_ok g'" "cols g' = cols g1" "rows g' = rows g1"
    "start g' = start g1" "goal g' = goal g1"
    and rc: "\<forall>c\<in>validCells g0. cellAt g' c =
            (if c \<in> set nbrs \<and> c \<notin> vis then discover g1 cur (cellAt g1 c) else cellAt g1 c)"
    by (simp_all add: new_def)
  have newi: "c \<in> set new \<longleftrightarrow> c \<in> set nbrs \<and> c \<notin> vis" for c by (simp add: new_def)
  have newv: "set new \<subseteq> validCells g0" using nbv newi by auto
  have curnew: "cur \<notin> set new" using cv newi by simp
  have cd: "cdistance (cellAt g' c) =
      (if c \<in> set new then cdistance (cellAt g cur) + 1 else cdistance (cellAt g c))"
    and cp: "cparent (cellAt g' c) = (if c \<in> set new then Some cur else cparent (cellAt g c))"
    and cs: "cstate (cellAt g' c) =
      (if c \<in> set new then Frontier else if c = cur then Visited else cstate (cellAt g c))"
    and ct: "ctype (cellAt g' c) = ctype (cellAt g c)"
    if "c \<in> validCells g0" for c
    using that rc cv by (simp_all add: newi c1 discover_def)
  from I3 cv obtain d where d: "cdistance (cellAt g cur) = enat d" "minHops g0 s cur d" by blast
  have newmin: "minHops g0 s n (Suc d)" if "n \<in> set new" for n
  proof -
    from that have n: "adjacent cur n" "passable g0 n" "n \<notin> vis" by (simp_all add: newi nbi)
    from d n have h: "hopsTo g0 s n (Suc d)" unfolding hopsTo_Suc minHops_def by blast
    have "Suc d \<le> k" if "hopsTo g0 s n k" for k
    proof (rule ccontr)
      assume "\<not> Suc d \<le> k"
      from ex_minHops [OF that] obtain j where j: "j \<le> k" "minHops g0 s n j" by blast
      with \<open>\<not> Suc d \<le> k\<close> have "j \<le> d" by simp
      have "\<forall>a\<in>set (cur # qt). enat j \<le> cdistance (cellAt g a)"
      proof
        fix a assume "a \<in> set (cur # qt)"
        from levels_hd_le [OF lv d(1) this] \<open>j \<le> d\<close> show "enat j \<le> cdistance (cellAt g a)"
          by (metis enat_ord_simps(1) order_trans)
      qed
      from closer_discovered [OF inv j(2) this] n show False by simp
    qed
    with h show ?thesis by (simp add: minHops_def)
  qed
  have J0: "maze_eq g0 g'"
    using m1 r ct m unfolding maze_eq_def by simp
  have J1: "s \<in> vis'" "cdistance (cellAt g' s) = 0" "cparent (cellAt g' s) = None"
    using sv sval ds pars r by (simp_all add: cd cp newi)
  have J2: "set q' \<subseteq> vis'" "distinct q'" "vis' \<subseteq> validCells g0"
    using qv dq vv r newi nbv nbd by (auto simp: new_def)
  have J3: "\<forall>c\<in>vis'. \<exists>n. cdistance (cellAt g' c) = enat n \<and> minHops g0 s c n"
  proof
    fix c assume c: "c \<in> vis'"
    show "\<exists>n. cdistance (cellAt g' c) = enat n \<and> minHops g0 s c n"
    proof (cases "c \<in> set new")
      case True
      with newv have "cdistance (cellAt g' c) = enat (Suc d)"
        using d by (auto simp: cd eSuc_enat [symmetric] plus_1_eSuc)
      with newmin [OF True] show ?thesis by blast
    next
      case False
      with c r have "c \<in> vis" by (auto simp: newi)
      with I3 False show ?thesis by (simp add: cd vvD)
    qed
  qed
  have J4: "\<forall>c\<in>vis'. c \<noteq> s \<longrightarrow>
        (\<exists>p. cparent (cellAt g' c) = Some p \<and> p \<in> vis' \<and> p \<notin> set q' \<and> adjacent p c \<and>
             cdistance (cellAt g' c) = cdistance (cellAt g' p) + 1)"
  proof (intro ballI impI)
    fix c assume c: "c \<in> vis'" "c \<noteq> s"
    show "\<exists>p. cparent (cellAt g' c) = Some p \<and> p \<in> vis' \<and> p \<notin> set q' \<and> adjacent p c \<and>
             cdistance (cellAt g' c) = cdistance (cellAt g' p) + 1"
    proof (cases "c \<in> set new")
      case True
      then have "adjacent cur c" by (simp add: newi nbi)
      with True newv cv curnew r show ?thesis
        by (intro exI [of _ cur]) (auto simp: cd cp)
    next
      case False
      with c r have cvis: "c \<in> vis" by (auto simp: newi)
      with I4 c obtain p where p: "cparent (cellAt g c) = Some p" "p \<in> vis" "p \<notin> set (cur # qt)"
        "adjacent p c" "cdistance (cellAt g c) = cdistance (cellAt g p) + 1" by blast
      then have "p \<notin> set new" "p \<in> validCells g0" "p \<notin> set qt" using vv by (auto simp: newi)
      with p cvis False r show ?thesis
        by (intro exI [of _ p]) (simp add: cd cp vvD)
    qed
  qed
  have dqt: "cdistance (cellAt g' a) = cdistance (cellAt g a)" if "a \<in> set qt" for a
  proof -
    from that qv have "a \<in> vis" by auto
    then show ?thesis by (simp add: cd newi vvD)
  qed
  have dnew: "cdistance (cellAt g' a) = enat (Suc d)" if "a \<in> set new" for a
    using that newv d by (auto simp: cd eSuc_enat [symmetric] plus_1_eSuc)
  have J5: "levels g' q'"
  proof -
    from lv obtain d0 q1 q2 where l: "cur # qt = q1 @ q2"
      "\<forall>a\<in>set q1. cdistance (cellAt g a) = enat d0"
      "\<forall>a\<in>set q2. cdistance (cellAt g a) = enat (Suc d0)" "q1 = [] \<longrightarrow> q2 = []"
      unfolding levels_def by blast
    then have "q1 \<noteq> []" by auto
    with l obtain q1t where q1: "q1 = cur # q1t" by (cases q1) auto
    with l d have "d0 = d" by auto
    from q1 l have qt: "qt = q1t @ q2" by simp
    show ?thesis
    proof (cases "q1t = []")
      case False
      have "q' = q1t @ (q2 @ new)" using r qt by simp
      moreover have "\<forall>a\<in>set q1t. cdistance (cellAt g' a) = enat d"
        using l q1 qt \<open>d0 = d\<close> by (simp add: dqt)
      moreover have "\<forall>a\<in>set (q2 @ new). cdistance (cellAt g' a) = enat (Suc d)"
        using l qt \<open>d0 = d\<close> by (auto simp: dqt dnew)
      ultimately show ?thesis unfolding levels_def using False by blast
    next
      case True
      have "q' = (q2 @ new) @ []" using r qt True by simp
      moreover have "\<forall>a\<in>set (q2 @ new). cdistance (cellAt g' a) = enat (Suc d)"
        using l qt \<open>d0 = d\<close> True by (auto simp: dqt dnew)
      moreover have "\<forall>a\<in>set ([]::pos list). cdistance (cellAt g' a) = enat (Suc (Suc d))" by simp
      ultimately show ?thesis unfolding levels_def by blast
    qed
  qed
  have J6: "\<forall>c\<in>vis'. c \<notin> set q' \<longrightarrow> (\<forall>n. adjacent c n \<and> passable g0 n \<longrightarrow> n \<in> vis')"
  proof (intro ballI impI allI)
    fix c n assume c: "c \<in> vis'" "c \<notin> set q'" "adjacent c n \<and> passable g0 n"
    then have "c \<in> vis" "c \<notin> set qt" using r by (auto simp: newi)
    show "n \<in> vis'"
    proof (cases "c = cur")
      case True
      with c have "n \<in> set nbrs" by (simp add: nbi)
      with r show ?thesis by simp
    next
      case False
      with \<open>c \<in> vis\<close> \<open>c \<notin> set qt\<close> have "c \<notin> set (cur # qt)" by simp
      with \<open>c \<in> vis\<close> I6 c(3) have "n \<in> vis" by blast
      with r show ?thesis by simp
    qed
  qed
  have J7: "\<forall>c\<in>validCells g0. cstate (cellAt g' c) =
        (if c \<in> set q' then Frontier else if c \<in> vis' then Visited else Unvisited)"
    using I7 r cv by (auto simp: cs newi)
  have J8: "\<forall>c\<in>validCells g0. c \<notin> vis' \<longrightarrow> cparent (cellAt g' c) = None \<and> cdistance (cellAt g' c) = \<infinity>"
    using I8 r by (auto simp: cd cp newi)
  have J9: "\<forall>c\<in>vis'. c \<notin> set q' \<longrightarrow> Some c \<noteq> goal g0"
  proof (intro ballI impI)
    fix c assume c: "c \<in> vis'" "c \<notin> set q'"
    then have "c \<in> vis" "c \<notin> set qt" using r by (auto simp: newi)
    with I9 ng show "Some c \<noteq> goal g0" by (cases "c = cur") auto
  qed
  have K: "bfs_inv g0 s g' q' vis'"
    unfolding bfs_inv_def using J0 ps J1 J2 J3 J4 J5 J6 J7 J8 J9 by blast
  have "\<forall>c\<in>vis. cdistance (cellAt g' c) = cdistance (cellAt g c) \<and>
                  cparent (cellAt g' c) = cparent (cellAt g c)"
    by (simp add: cd cp vvD newi)
  with K r show ?thesis by auto
qed

lemma bfs_inv_tree_ok: "bfs_inv g0 s g q vis \<Longrightarrow> tree_ok g0 s g vis"
  unfolding bfs_inv_def tree_ok_def by blast

lemma reconstructLoop_tree:
  assumes t: "tree_ok g0 s g vis"
  shows "c \<in> vis \<Longrightarrow> cdistance (cellAt g c) = enat n \<Longrightarrow>
         \<exists>ps. reconstructLoop g (Some c) acc = Some (ps @ acc) \<and> walk g0 ps \<and> hd ps = s \<and>
              last ps = c \<and> length ps = Suc n"
proof (induction n arbitrary: c acc)
  case 0
  have "c = s"
  proof (rule ccontr)
    assume "c \<noteq> s"
    with t 0 obtain p where p: "p \<in> vis" "cdistance (cellAt g c) = cdistance (cellAt g p) + 1"
      unfolding tree_ok_def by blast
    with t obtain k where "cdistance (cellAt g p) = enat k" unfolding tree_ok_def by blast
    with p 0 show False by (simp add: plus_1_eSuc eSuc_enat zero_enat_def)
  qed
  from t 0 obtain k where "minHops g0 s c k" unfolding tree_ok_def by blast
  then have "passable g0 c" by (auto simp: minHops_def dest: hopsTo_passable)
  moreover have "reconstructLoop g (Some s) acc = Some ([s] @ acc)"
    using t by (subst reconstructLoop.simps, simp, subst reconstructLoop.simps) (simp add: tree_ok_def)
  ultimately have "reconstructLoop g (Some c) acc = Some ([s] @ acc) \<and> walk g0 [s] \<and> hd [s] = s \<and>
              last [s] = c \<and> length [s] = Suc 0"
    using \<open>c = s\<close> by simp
  then show ?case by blast
next
  case (Suc n)
  from t Suc.prems obtain k where k: "cdistance (cellAt g c) = enat k" "minHops g0 s c k"
    unfolding tree_ok_def by blast
  with Suc.prems have mc: "minHops g0 s c (Suc n)" by simp
  then have pc: "passable g0 c" by (auto simp: minHops_def dest: hopsTo_passable)
  have "c \<noteq> s"
  proof
    assume "c = s"
    with pc have "hopsTo g0 s c 0" by (simp add: hopsTo_0)
    with mc show False by (auto simp: minHops_def)
  qed
  with t Suc.prems obtain p where p: "cparent (cellAt g c) = Some p" "p \<in> vis" "adjacent p c"
    "cdistance (cellAt g c) = cdistance (cellAt g p) + 1"
    unfolding tree_ok_def by blast
  with t obtain j where j: "cdistance (cellAt g p) = enat j" unfolding tree_ok_def by blast
  with p Suc.prems have "j = n" by (simp add: plus_1_eSuc eSuc_enat)
  with j have "cdistance (cellAt g p) = enat n" by simp
  from Suc.IH [OF p(2) this, of "c # acc"] obtain ps where
    ps: "reconstructLoop g (Some p) (c # acc) = Some (ps @ c # acc)" "walk g0 ps" "hd ps = s"
      "last ps = p" "length ps = Suc n" by blast
  then have ne: "ps \<noteq> []" by auto
  have "reconstructLoop g (Some c) acc = Some ((ps @ [c]) @ acc)"
    using ps(1) p(1) by (subst reconstructLoop.simps) simp
  moreover have "walk g0 (ps @ [c])" using ps ne p pc by (simp add: walk_snoc)
  moreover have "hd (ps @ [c]) = s" "last (ps @ [c]) = c" "length (ps @ [c]) = Suc (Suc n)"
    using ps ne by simp_all
  ultimately show ?case by blast
qed

lemma bfs_inv_visited_min:
  assumes "bfs_inv g0 s g q vis" "c \<in> validCells g0" "cstate (cellAt g c) = Visited"
  shows "\<exists>n. cdistance (cellAt g c) = enat n \<and> minHops g0 s c n"
proof -
  from assms have "cstate (cellAt g c) =
        (if c \<in> set q then Frontier else if c \<in> vis then Visited else Unvisited)"
    unfolding bfs_inv_def by blast
  with assms(3) have "c \<in> vis" by (simp split: if_splits)
  with assms show ?thesis unfolding bfs_inv_def by blast
qed

lemma bfs_inv_exhausted:
  assumes inv: "bfs_inv g0 s g [] vis"
  shows "(\<forall>t. goal g0 = Some t \<longrightarrow> \<not> reachable g0 s t) \<and>
         (\<forall>c\<in>validCells g0. cstate (cellAt g c) = Visited \<longleftrightarrow> reachable g0 s c)"
proof -
  have a: "c \<in> vis \<longleftrightarrow> reachable g0 s c" for c
  proof
    assume "c \<in> vis"
    with inv show "reachable g0 s c" unfolding bfs_inv_def reachable_def minHops_def by blast
  next
    assume "reachable g0 s c"
    then obtain m where "hopsTo g0 s c m" by (auto simp: reachable_def)
    from ex_minHops [OF this] obtain n where "minHops g0 s c n" by blast
    from closer_discovered [OF inv this] show "c \<in> vis" by simp
  qed
  have "\<forall>c\<in>validCells g0. cstate (cellAt g c) = Visited \<longleftrightarrow> c \<in> vis"
    using inv unfolding bfs_inv_def by simp
  moreover have "\<forall>c\<in>vis. Some c \<noteq> goal g0" using inv unfolding bfs_inv_def by simp
  ultimately show ?thesis using a by auto
qed

lemma tree_ok_cstate:
  assumes "tree_ok g0 s g vis" "shape_ok g" "p \<in> validCells g" "vis \<subseteq> validCells g" "s \<in> vis"
  shows "tree_ok g0 s (updCell g p (\<lambda>c. c\<lparr>cstate := Visited\<rparr>)) vis"
proof -
  have "cparent (cellAt (updCell g p (\<lambda>c. c\<lparr>cstate := Visited\<rparr>)) c) = cparent (cellAt g c) \<and>
        cdistance (cellAt (updCell g p (\<lambda>c. c\<lparr>cstate := Visited\<rparr>)) c) = cdistance (cellAt g c)"
    if "c \<in> vis" for c
  proof -
    from that assms have "c \<in> validCells g" by auto
    with assms show ?thesis by (simp add: cellAt_updCell)
  qed
  with assms(1,5) show ?thesis unfolding tree_ok_def by (simp cong: conj_cong)
qed

lemma bfsLoop_correct:
  "bfs_inv g0 s (grid v) q vis \<Longrightarrow> \<not> isPaused v \<Longrightarrow>
   \<exists>v' r. bfsLoop v q vis = Some (v', r) \<and> bfs_post g0 s v' r"
proof (induction v q vis rule: bfsLoop.induct)
  case (1 v q vis)
  note inv = "1.prems"(1)
  show ?case
  proof (cases q)
    case Nil
    from inv have m: "maze_eq g0 (grid v)" by (simp add: bfs_inv_def)
    have "bfsLoop v q vis = Some (v, \<lparr>pathFound = False, path = []\<rparr>)"
      using Nil by (simp add: bfsLoop.simps)
    moreover have "bfs_post g0 s v \<lparr>pathFound = False, path = []\<rparr>"
      unfolding bfs_post_def
      using bfs_inv_exhausted [of g0 s "grid v" vis] bfs_inv_visited_min [of g0 s "grid v" q vis] inv m Nil
      by simp
    ultimately show ?thesis by blast
  next
    case (Cons cur qt)
    define v1 where "v1 = dequeue v cur"
    from inv Cons have m: "maze_eq g0 (grid v)" and cv: "cur \<in> vis" "cur \<in> validCells g0"
      and vv: "vis \<subseteq> validCells g0" and sv: "s \<in> vis"
      by (auto simp: bfs_inv_def)
    have vg: "validCells (grid v) = validCells g0" using m by (rule maze_eq_validCells)
    have sg: "shape_ok (grid v)" using m by (simp add: maze_eq_def)
    have g1: "grid v1 = updCell (grid v) cur (\<lambda>c. c\<lparr>cstate := Visited\<rparr>)"
      by (simp add: v1_def dequeue_def)
    have m1: "maze_eq g0 (grid v1)" unfolding g1 using m cv by (intro maze_eq_updCell) simp_all
    have goal1: "goal (grid v1) = goal g0" using m1 by (simp add: maze_eq_def)
    have c1: "cellAt (grid v1) c = (if c = cur then (cellAt (grid v) c)\<lparr>cstate := Visited\<rparr> else cellAt (grid v) c)"
      if "c \<in> validCells g0" for c
      unfolding g1 using that cv sg vg by (simp add: cellAt_updCell)
    show ?thesis
    proof (cases "Some cur = goal g0")
      case True
      have t1: "tree_ok g0 s (grid v1) vis"
        unfolding g1 using bfs_inv_tree_ok [OF inv] sg cv vv sv vg by (intro tree_ok_cstate) simp_all
      from inv cv obtain n where n: "cdistance (cellAt (grid v) cur) = enat n" "minHops g0 s cur n"
        unfolding bfs_inv_def by blast
      then have "cdistance (cellAt (grid v1) cur) = enat n" using cv by (simp add: c1)
      from reconstructLoop_tree [OF t1 cv(1) this, of "[]"] obtain ps where
        ps: "reconstructPath (grid v1) cur = Some ps" "walk g0 ps" "hd ps = s" "last ps = cur"
          "length ps = Suc n"
        by (auto simp: reconstructPath_def)
      have "bfsLoop v q vis = Some (v1\<lparr>pathLength := int (length ps) - 1\<rparr>, \<lparr>pathFound = True, path = ps\<rparr>)"
        using Cons "1.prems"(2) True ps goal1 by (subst bfsLoop.simps) (simp add: v1_def [symmetric])
      moreover have "bfs_post g0 s (v1\<lparr>pathLength := int (length ps) - 1\<rparr>) \<lparr>pathFound = True, path = ps\<rparr>"
      proof -
        have "\<exists>k. cdistance (cellAt (grid v1) c) = enat k \<and> minHops g0 s c k"
          if "c \<in> validCells g0" "cstate (cellAt (grid v1) c) = Visited" for c
        proof (cases "c = cur")
          case True
          with n cv show ?thesis by (simp add: c1)
        next
          case False
          with that bfs_inv_visited_min [OF inv, of c] show ?thesis by (simp add: c1)
        qed
        moreover have "\<exists>t k. goal g0 = Some t \<and> minHops g0 s t k \<and> walk g0 ps \<and> hd ps = s \<and>
              last ps = t \<and> length ps = Suc k \<and> int (length ps) - 1 = int k"
          using True [symmetric] n ps by (intro exI [of _ cur] exI [of _ n]) simp
        ultimately show ?thesis using m1 unfolding bfs_post_def by simp
      qed
      ultimately show ?thesis by blast
    next
      case False
      obtain v2 q2 vis2 where e: "expand v1 cur qt vis = (v2, q2, vis2)" by (cases "expand v1 cur qt vis")
      then have ex: "exploreNeighbors cur (getNeighbors (grid v1) cur) (grid v1, qt, vis) = (grid v2, q2, vis2)"
        and p2: "isPaused v2 = isPaused v1"
        by (auto simp: expand_def split: prod.splits)
      from bfs_turn [OF inv [unfolded Cons] False ex [unfolded g1]]
      have inv2: "bfs_inv g0 s (grid v2) q2 vis2" by simp
      have np: "\<not> isPaused v2" using p2 "1.prems"(2) by (simp add: v1_def dequeue_def)
      have "\<exists>v' r. bfsLoop v2 q2 vis2 = Some (v', r) \<and> bfs_post g0 s v' r"
        using Cons "1.prems"(2) False goal1 e inv2 np
        by (intro "1.IH" [of cur v1 v2 "(q2, vis2)" q2 vis2]) (simp_all add: v1_def)
      moreover have "bfsLoop v q vis = bfsLoop v2 q2 vis2"
        using Cons "1.prems"(2) False goal1 e by (subst bfsLoop.simps) (simp add: v1_def [symmetric])
      ultimately show ?thesis by simp
    qed
  qed
qed

lemma cellAt_reset:
  assumes "shape_ok g" "p \<in> validCells g"
  shows "cellAt (reset g) p = resetCell (cellAt g p)"
proof -
  from assms have "nat (snd p) < length (cells g)" "nat (fst p) < length (cells g ! nat (snd p))"
    by (auto simp: shape_ok_def validCells_def isValidCell_def list_all_length)
  then show ?thesis by (simp add: cellAt_def reset_def)
qed

lemma maze_eq_reset: "shape_ok g \<Longrightarrow> maze_eq g (reset g)"
proof -
  assume s: "shape_ok g"
  then have "shape_ok (reset g)" by (auto simp: shape_ok_def reset_def list_all_iff)
  moreover have "validCells (reset g) = validCells g"
    by (simp add: validCells_def isValidCell_def reset_def)
  ultimately show ?thesis using s
    by (simp add: maze_eq_def cellAt_reset resetCell_def) (simp add: reset_def)
qed

lemma runBFS_bfsInit:
  "start (grid v) = Some s \<Longrightarrow>
   runBFS v = (case bfsInit v s of (v0, q, vis) \<Rightarrow> bfsLoop v0 q vis)"
  by (simp add: runBFS_def bfsInit_def)

lemma bfs_inv_init:
  assumes sh: "shape_ok g0" and sv: "s \<in> validCells g0" and ps: "passable g0 s"
  shows "bfs_inv g0 s (updCell (reset g0) s (\<lambda>c. c\<lparr>cdistance := 0, cstate := Frontier\<rparr>)) [s] {s}"
proof -
  define g where "g = updCell (reset g0) s (\<lambda>c. c\<lparr>cdistance := 0, cstate := Frontier\<rparr>)"
  have mr: "maze_eq g0 (reset g0)" using sh by (rule maze_eq_reset)
  have vr: "validCells (reset g0) = validCells g0" using mr by (rule maze_eq_validCells)
  have sr: "shape_ok (reset g0)" using mr by (simp add: maze_eq_def)
  have m: "maze_eq g0 g" unfolding g_def using mr sv by (intro maze_eq_updCell) simp_all
  have c: "cellAt g c = (if c = s then (resetCell (cellAt g0 s))\<lparr>cdistance := 0, cstate := Frontier\<rparr>
                        else resetCell (cellAt g0 c))"
    if "c \<in> validCells g0" for c
    unfolding g_def using that sv sr vr sh by (simp add: cellAt_updCell cellAt_reset)
  have "minHops g0 s s 0" using ps by (simp add: minHops_def hopsTo_0)
  moreover have d0: "cdistance (cellAt g s) = enat 0" using sv by (simp add: c zero_enat_def)
  ultimately have I3: "\<forall>c\<in>{s}. \<exists>n. cdistance (cellAt g c) = enat n \<and> minHops g0 s c n"
    by blast
  have "[s] = [s] @ [] \<and> (\<forall>a\<in>set [s]. cdistance (cellAt g a) = enat 0) \<and>
        (\<forall>a\<in>set ([]::pos list). cdistance (cellAt g a) = enat (Suc 0)) \<and> ([s] = [] \<longrightarrow> ([]::pos list) = [])"
    using d0 by simp
  then have lv: "levels g [s]" unfolding levels_def by blast
  have I7: "\<forall>c\<in>validCells g0. cstate (cellAt g c) =
        (if c \<in> set [s] then Frontier else if c \<in> {s} then Visited else Unvisited)"
    by (simp add: c resetCell_def)
  have I8: "\<forall>c\<in>validCells g0. c \<notin> {s} \<longrightarrow> cparent (cellAt g c) = None \<and> cdistance (cellAt g c) = \<infinity>"
    by (simp add: c resetCell_def)
  have I1: "cdistance (cellAt g s) = 0" "cparent (cellAt g s) = None"
    using sv by (simp_all add: c resetCell_def)
  show ?thesis
    unfolding g_def [symmetric] bfs_inv_def
    using m ps sv I1 I3 lv I7 I8 by (intro conjI) simp_all
qed

lemma wf_grid_shape: "wf_grid g \<Longrightarrow> shape_ok g"
  by (simp add: wf_grid_def shape_ok_def)

lemma wf_grid_start: "wf_grid g \<Longrightarrow> start g = Some s \<Longrightarrow> s \<in> validCells g"
  by (simp add: wf_grid_def validCells_def)

lemma reachable_passable: "reachable g s t \<Longrightarrow> passable g s"
proof -
  assume "reachable g s t"
  then obtain ps where "walk g ps" "hd ps = s" by (auto simp: reachable_def hopsTo_def)
  moreover from this have "ps \<noteq> []" by auto
  ultimately show ?thesis using walk_passable [of g ps s] by auto
qed

lemma runBFS_post:
  assumes "wf_grid (grid v)" "start (grid v) = Some s" "passable (grid v) s"
  shows "\<exists>v' r. runBFS (prepareBFS v) = Some (v', r) \<and> bfs_post (grid v) s v' r"
proof -
  from assms have sh: "shape_ok (grid v)" and sv: "s \<in> validCells (grid v)"
    by (simp_all add: wf_grid_shape wf_grid_start)
  define v0 where "v0 = (prepareBFS v)\<lparr>grid := updCell (reset (grid v)) s (\<lambda>c. c\<lparr>cdistance := 0, cstate := Frontier\<rparr>)\<rparr>"
  have "start (reset (grid v)) = Some s" using assms by (simp add: reset_def)
  then have r: "runBFS (prepareBFS v) = bfsLoop v0 [s] {s}"
    by (simp add: runBFS_def prepareBFS_def v0_def)
  have "bfs_inv (grid v) s (grid v0) [s] {s}"
    using bfs_inv_init [OF sh sv assms(3)] by (simp add: v0_def)
  moreover have "\<not> isPaused v0" by (simp add: v0_def prepareBFS_def)
  ultimately show ?thesis unfolding r by (rule bfsLoop_correct)
qed

text \<open>
  C1. On a grid whose goal cell is reachable from the start cell through non-wall cells,
  \<open>runBFS\<close>, run as \<open>startBFS\<close> runs it, returns \<open>pathFound = true\<close> with a path that
  begins at the start and ends at the goal and is a walk (every cell of it on the grid and
  not a wall, consecutive cells orthogonally adjacent); the reported \<open>pathLength\<close> is the
  number of cells of the path less one, and it is the minimum hop count from start to goal.
\<close>

theorem runBFS_finds_shortest_path:
  assumes "wf_grid (grid v)" "start (grid v) = Some s" "goal (grid v) = Some t"
    and "reachable (grid v) s t"
  shows "\<exists>v' r n. runBFS (prepareBFS v) = Some (v', r) \<and> pathFound r \<and>
           hd (path r) = s \<and> last (path r) = t \<and> walk (grid v) (path r) \<and>
           pathLength v' = int (length (path r)) - 1 \<and>
           minHops (grid v) s t n \<and> pathLength v' = int n"
proof -
  from assms(4) have "passable (grid v) s" by (rule reachable_passable)
  from runBFS_post [OF assms(1,2) this] obtain v' r where
    r: "runBFS (prepareBFS v) = Some (v', r)" "bfs_post (grid v) s v' r" by blast
  with assms(3,4) have "pathFound r" unfolding bfs_post_def by (auto split: if_splits)
  with r assms(3) show ?thesis unfolding bfs_post_def by auto
qed

text \<open>
  C4. On a grid whose start cell is not a wall and whose goal cell is not reachable from
  it, \<open>runBFS\<close> returns \<open>pathFound = false\<close> with the empty path, and in the grid it
  leaves behind the cells with state visited are exactly the cells reachable from the start
  through non-wall cells.
\<close>

theorem runBFS_no_path:
  assumes "wf_grid (grid v)" "start (grid v) = Some s" "goal (grid v) = Some t"
    and "passable (grid v) s" and "\<not> reachable (grid v) s t"
  shows "\<exists>v'. runBFS (prepareBFS v) = Some (v', \<lparr>pathFound = False, path = []\<rparr>) \<and>
           (\<forall>c\<in>validCells (grid v).
              cstate (cellAt (grid v') c) = Visited \<longleftrightarrow> reachable (grid v) s c)"
proof -
  from runBFS_post [OF assms(1,2,4)] obtain v' r where
    r: "runBFS (prepareBFS v) = Some (v', r)" "bfs_post (grid v) s v' r" by blast
  have "\<not> pathFound r"
  proof
    assume "pathFound r"
    with r assms(3) have "\<exists>n. minHops (grid v) s t n" unfolding bfs_post_def by auto
    with assms(5) show False by (auto simp: reachable_def minHops_def)
  qed
  with r have "r = \<lparr>pathFound = False, path = []\<rparr>" unfolding bfs_post_def by (cases r) simp
  with r \<open>\<not> pathFound r\<close> show ?thesis unfolding bfs_post_def by auto
qed

lemma bfsLoop_turn:
  "continues (v, q, vis) \<Longrightarrow>
   bfsLoop v q vis = (case bfsTurn (v, q, vis) of (v2, q2, vis2) \<Rightarrow> bfsLoop v2 q2 vis2)"
  by (subst bfsLoop.simps) (simp add: continues_def bfsTurn_def Let_def)

lemma bfsLoop_stops:
  "\<not> continues (v, q, vis) \<Longrightarrow>
   bfsLoop v q vis =
     (if q \<noteq> [] \<and> \<not> isPaused v
      then (case reconstructPath (grid (dequeue v (hd q))) (hd q) of
              None \<Rightarrow> None
            | Some p \<Rightarrow> Some ((dequeue v (hd q))\<lparr>pathLength := int (length p) - 1\<rparr>,
                              \<lparr>pathFound = True, path = p\<rparr>))
      else Some (v, \<lparr>pathFound = False, path = []\<rparr>))"
  by (subst bfsLoop.simps) (auto simp: continues_def Let_def)



text \<open>
  C6, as the code has it. On the 5 by 5 grid with no wall, start (1,1) and goal (3,3), the
  run finds the path of length 4 and has dequeued 21 cells when it returns: the 17 cells at
  distance at most 3 from the start and four of the five cells at distance 4, the goal
  being the fourth of them in the order left, right, up, down.
\<close>

theorem bfs_scenario_visits_21:
  "map_option (\<lambda>(v', r). (pathFound r, pathLength v', visitedCount v', path r)) (runBFS (prepareBFS vis5)) =
     Some (True, 4, 21, [(1, 1), (2, 1), (3, 1), (3, 2), (3, 3)]) \<and>
   directions = [(-1, 0), (1, 0), (0, -1), (0, 1)]"
  by code_simp

text \<open>C6, as the claim states it: the visited count of that run is not 16.\<close>

theorem bfs_scenario_not_16:
  "map_option (\<lambda>(v', r). visitedCount v') (runBFS (prepareBFS vis5)) \<noteq> Some 16"
  by code_simp

text \<open>The scenario grid satisfies the hypotheses of C1.\<close>

theorem runBFS_finds_shortest_path_witness:
  "wf_grid (grid vis5) \<and> start (grid vis5) = Some (1, 1) \<and> goal (grid vis5) = Some (3, 3) \<and>
   reachable (grid vis5) (1, 1) (3, 3) \<and>
   (\<exists>v' r n. runBFS (prepareBFS vis5) = Some (v', r) \<and> pathFound r \<and>
           hd (path r) = (1, 1) \<and> last (path r) = (3, 3) \<and> walk (grid vis5) (path r) \<and>
           pathLength v' = int (length (path r)) - 1 \<and>
           minHops (grid vis5) (1, 1) (3, 3) n \<and> pathLength v' = int n)"
proof -
  have w: "wf_grid (grid vis5)" by code_simp
  have s: "start (grid vis5) = Some (1, 1)" by code_simp
  have t: "goal (grid vis5) = Some (3, 3)" by code_simp
  have "walk (grid vis5) [(1, 1), (2, 1), (3, 1), (3, 2), (3, 3)]" by code_simp
  then have "hopsTo (grid vis5) (1, 1) (3, 3) 4"
    unfolding hopsTo_def by (intro exI [of _ "[(1, 1), (2, 1), (3, 1), (3, 2), (3, 3)]"]) simp
  then have r: "reachable (grid vis5) (1, 1) (3, 3)" unfolding reachable_def by blast
  from runBFS_finds_shortest_path [OF w s t r] w s t r show ?thesis by blast
qed

lemma walled5_goal_isolated: "\<not> reachable walled5 (1, 1) (3, 3)"
proof
  assume "reachable walled5 (1, 1) (3, 3)"
  then obtain n where n: "hopsTo walled5 (1, 1) (3, 3) n" by (auto simp: reachable_def)
  show False
  proof (cases n)
    case 0
    with n show False by (simp add: hopsTo_0)
  next
    case (Suc m)
    with n obtain c where c: "hopsTo walled5 (1, 1) c m" "adjacent c (3, 3)"
      by (auto simp: hopsTo_Suc)
    from c(1) have p: "passable walled5 c" by (rule hopsTo_passable)
    have "adjacent (3, 3) c" using c(2) by (simp add: adjacent_def abs_minus_commute)
    then have "c \<in> {(2, 3), (4, 3), (3, 2), (3, 4)}" by (simp add: adjacent_iff)
    moreover have "\<not> passable walled5 (2, 3)" "\<not> passable walled5 (4, 3)"
      "\<not> passable walled5 (3, 2)" "\<not> passable walled5 (3, 4)" by code_simp+
    ultimately show False using p by auto
  qed
qed

text \<open>
  The scenario grid with walls on the four neighbours of the goal satisfies the hypotheses
  of C4.
\<close>

theorem runBFS_no_path_witness:
  "wf_grid (grid visWalled5) \<and> start (grid visWalled5) = Some (1, 1) \<and>
   goal (grid visWalled5) = Some (3, 3) \<and> passable (grid visWalled5) (1, 1) \<and>
   \<not> reachable (grid visWalled5) (1, 1) (3, 3) \<and>
   (\<exists>v'. runBFS (prepareBFS visWalled5) = Some (v', \<lparr>pathFound = False, path = []\<rparr>) \<and>
         (cstate (cellAt (grid v') (4, 4)) = Visited \<longleftrightarrow> reachable (grid visWalled5) (1, 1) (4, 4)))"
proof -
  have w: "wf_grid (grid visWalled5)" by code_simp
  have s: "start (grid visWalled5) = Some (1, 1)" by code_simp
  have t: "goal (grid visWalled5) = Some (3, 3)" by code_simp
  have p: "passable (grid visWalled5) (1, 1)" by code_simp
  have r: "\<not> reachable (grid visWalled5) (1, 1) (3, 3)"
    using walled5_goal_isolated by (simp add: visWalled5_def)
  have v: "(4, 4) \<in> validCells (grid visWalled5)" by (simp add: validCells_def) code_simp
  from runBFS_no_path [OF w s t p r] v w s t p r show ?thesis by blast
qed


section \<open>Reading and writing nodes\<close>

lemma map_fst_map_entry [simp]: "map fst (AList.map_entry k f xs) = map fst xs"
  by (induction xs) auto

lemma getNode_updNode:
  "getNode (updNode g i f) j = (if j = i then map_option f (getNode g i) else getNode g j)"
  by (auto simp: getNode_def updNode_def map_of_map_entry split: option.splits)

lemma ids_updNode [simp]: "ids (updNode g i f) = ids g"
  by (simp add: ids_def updNode_def)

lemma getNode_Some_iff: "(\<exists>n. getNode g i = Some n) \<longleftrightarrow> i \<in> set (ids g)"
  using map_of_eq_None_iff [of "nodes g" i]
  by (cases "map_of (nodes g) i") (auto simp: getNode_def ids_def)

lemma succs_updNode:
  "(\<And>n. map fst (neighbors (f n)) = map fst (neighbors n)) \<Longrightarrow> succs (updNode g i f) = succs g"
  by (auto simp: succs_def getNode_updNode fun_eq_iff split: option.splits)

lemma stateOf_updNode:
  "stateOf (updNode g i f) j = (if j = i then map_option (\<lambda>n. nstate (f n)) (getNode g i) else stateOf g j)"
  by (simp add: stateOf_def getNode_updNode option.map_comp comp_def)

lemma parentOf_updNode:
  "parentOf (updNode g i f) j = (if j = i then map_option (\<lambda>n. nparent (f n)) (getNode g i) else parentOf g j)"
  by (simp add: parentOf_def getNode_updNode option.map_comp comp_def)

lemma discOf_updNode:
  "discOf (updNode g i f) j = (if j = i then map_option (\<lambda>n. discoveryTime (f n)) (getNode g i) else discOf g j)"
  by (simp add: discOf_def getNode_updNode option.map_comp comp_def)

lemma finOf_updNode:
  "finOf (updNode g i f) j = (if j = i then map_option (\<lambda>n. finishTime (f n)) (getNode g i) else finOf g j)"
  by (simp add: finOf_def getNode_updNode option.map_comp comp_def)

lemma stateOf_updNode_same: "(\<And>n. nstate (f n) = nstate n) \<Longrightarrow> stateOf (updNode g i f) = stateOf g"
  by (auto simp: fun_eq_iff stateOf_def getNode_updNode option.map_comp comp_def)

lemma parentOf_updNode_same: "(\<And>n. nparent (f n) = nparent n) \<Longrightarrow> parentOf (updNode g i f) = parentOf g"
  by (auto simp: fun_eq_iff parentOf_def getNode_updNode option.map_comp comp_def)

lemma discOf_updNode_same:
  "(\<And>n. discoveryTime (f n) = discoveryTime n) \<Longrightarrow> discOf (updNode g i f) = discOf g"
  by (auto simp: fun_eq_iff discOf_def getNode_updNode option.map_comp comp_def)

lemma finOf_updNode_same:
  "(\<And>n. finishTime (f n) = finishTime n) \<Longrightarrow> finOf (updNode g i f) = finOf g"
  by (auto simp: fun_eq_iff finOf_def getNode_updNode option.map_comp comp_def)

lemma stateOf_Some_ids: "stateOf g i = Some x \<Longrightarrow> i \<in> set (ids g)"
  using getNode_Some_iff [of g i] by (auto simp: stateOf_def)

lemma stateOf_updNode_const:
  "(\<And>n. nstate (f n) = X) \<Longrightarrow>
   stateOf (updNode g a f) i = (if i = a \<and> a \<in> set (ids g) then Some X else stateOf g i)"
  using getNode_Some_iff [of g a]
  by (cases "getNode g a") (auto simp: stateOf_def getNode_updNode)

lemma parentOf_updNode_const:
  "(\<And>n. nparent (f n) = X) \<Longrightarrow>
   parentOf (updNode g a f) i = (if i = a \<and> a \<in> set (ids g) then Some X else parentOf g i)"
  using getNode_Some_iff [of g a]
  by (cases "getNode g a") (auto simp: parentOf_def getNode_updNode)

lemma discOf_updNode_const:
  "(\<And>n. discoveryTime (f n) = X) \<Longrightarrow>
   discOf (updNode g a f) i = (if i = a \<and> a \<in> set (ids g) then Some X else discOf g i)"
  using getNode_Some_iff [of g a]
  by (cases "getNode g a") (auto simp: discOf_def getNode_updNode)

lemma finOf_updNode_const:
  "(\<And>n. finishTime (f n) = X) \<Longrightarrow>
   finOf (updNode g a f) i = (if i = a \<and> a \<in> set (ids g) then Some X else finOf g i)"
  using getNode_Some_iff [of g a]
  by (cases "getNode g a") (auto simp: finOf_def getNode_updNode)

text \<open>Marking an edge changes no node field and no key.\<close>

lemma markEdge_frame [simp]:
  "ids (markEdge g a b) = ids g" "succs (markEdge g a b) = succs g"
  "stateOf (markEdge g a b) = stateOf g" "parentOf (markEdge g a b) = parentOf g"
  "discOf (markEdge g a b) = discOf g" "finOf (markEdge g a b) = finOf g"
  by (simp_all add: markEdge_def succs_updNode stateOf_updNode_same parentOf_updNode_same
      discOf_updNode_same finOf_updNode_same)

lemma fold_markEdge_frame [simp]:
  "ids (fold (\<lambda>i g. markEdge g (f i) (h i)) xs g) = ids g"
  "succs (fold (\<lambda>i g. markEdge g (f i) (h i)) xs g) = succs g"
  "stateOf (fold (\<lambda>i g. markEdge g (f i) (h i)) xs g) = stateOf g"
  "parentOf (fold (\<lambda>i g. markEdge g (f i) (h i)) xs g) = parentOf g"
  "discOf (fold (\<lambda>i g. markEdge g (f i) (h i)) xs g) = discOf g"
  "finOf (fold (\<lambda>i g. markEdge g (f i) (h i)) xs g) = finOf g"
  by (induction xs arbitrary: g) simp_all

lemma fold_setCycle_frame [simp]:
  "ids (fold (\<lambda>node g. updNode g node (\<lambda>n. n\<lparr>nstate := Cycle\<rparr>)) c g) = ids g"
  "succs (fold (\<lambda>node g. updNode g node (\<lambda>n. n\<lparr>nstate := Cycle\<rparr>)) c g) = succs g"
  "parentOf (fold (\<lambda>node g. updNode g node (\<lambda>n. n\<lparr>nstate := Cycle\<rparr>)) c g) = parentOf g"
  "discOf (fold (\<lambda>node g. updNode g node (\<lambda>n. n\<lparr>nstate := Cycle\<rparr>)) c g) = discOf g"
  "finOf (fold (\<lambda>node g. updNode g node (\<lambda>n. n\<lparr>nstate := Cycle\<rparr>)) c g) = finOf g"
  by (induction c arbitrary: g)
    (simp_all add: succs_updNode parentOf_updNode_same discOf_updNode_same finOf_updNode_same)

lemma fold_setCycle_state:
  "stateOf (fold (\<lambda>node g. updNode g node (\<lambda>n. n\<lparr>nstate := Cycle\<rparr>)) c g) i =
     (if i \<in> set c \<and> i \<in> set (ids g) then Some Cycle else stateOf g i)"
proof (induction c arbitrary: g)
  case Nil
  then show ?case by simp
next
  case (Cons a c)
  show ?case
    by (auto simp: Cons.IH stateOf_updNode_const dest: stateOf_Some_ids)
qed

lemma estateOf_updNode_same:
  "(\<And>n. neighbors (f n) = neighbors n) \<Longrightarrow> estateOf (updNode g i f) = estateOf g"
  by (auto simp: fun_eq_iff estateOf_def getNode_updNode split: option.splits)

lemma hasEdge_estateOf: "hasEdge g a b \<longleftrightarrow> estateOf g a b \<noteq> None"
proof (cases "getNode g a")
  case None
  then show ?thesis by (simp add: hasEdge_def succs_def estateOf_def)
next
  case (Some n)
  then show ?thesis
    using map_of_eq_None_iff [of "neighbors n" b]
    by (simp add: hasEdge_def succs_def estateOf_def)
qed

lemma estateOf_markEdge:
  "estateOf (markEdge g a b) x y =
     (if x = a \<and> y = b \<and> estateOf g a b \<noteq> None then Some CycleEdge else estateOf g x y)"
  by (auto simp: estateOf_def markEdge_def getNode_updNode map_of_map_entry split: option.splits)

lemma estateOf_fold_markEdge:
  "estateOf (fold (\<lambda>i g. markEdge g (f i) (h i)) xs g) x y =
     (if (\<exists>i\<in>set xs. x = f i \<and> y = h i) \<and> estateOf g x y \<noteq> None then Some CycleEdge
      else estateOf g x y)"
proof (induction xs arbitrary: g)
  case Nil
  then show ?case by simp
next
  case (Cons i xs)
  show ?case by (auto simp: Cons.IH estateOf_markEdge)
qed

lemma estateOf_fold_setCycle [simp]:
  "estateOf (fold (\<lambda>node g. updNode g node (\<lambda>n. n\<lparr>nstate := Cycle\<rparr>)) c g) = estateOf g"
  by (induction c arbitrary: g) (simp_all add: estateOf_updNode_same)

lemma successively_nth:
  "successively P xs \<Longrightarrow> Suc i < length xs \<Longrightarrow> P (xs ! i) (xs ! Suc i)"
proof (induction P xs arbitrary: i rule: successively.induct)
  case (3 P x y xs)
  then show ?case by (cases i) auto
qed simp_all

lemma closedWalk_nth:
  assumes "closedWalk g c" "i < length c"
  shows "hasEdge g (c ! i) (c ! ((i + 1) mod length c))"
proof (cases "Suc i < length c")
  case True
  with assms successively_nth [of "hasEdge g" c i] show ?thesis by (simp add: closedWalk_def)
next
  case False
  with assms have i: "i = length c - 1" "c \<noteq> []" by auto
  then have "c ! i = last c" "c ! ((i + 1) mod length c) = hd c"
    by (simp_all add: last_conv_nth hd_conv_nth)
  with assms show ?thesis by (simp add: closedWalk_def)
qed

lemma marked_mono:
  assumes "marked g c" "\<And>x y. estateOf g x y = Some CycleEdge \<Longrightarrow> estateOf g' x y = Some CycleEdge"
  shows "marked g' c"
  using assms unfolding marked_def list_all_iff by blast

lemma marked_cong: "estateOf g' = estateOf g \<Longrightarrow> marked g' = marked g"
  by (simp add: marked_def fun_eq_iff)

section \<open>The invariant of the search on the graph\<close>

lemma findCycleLoop_chain:
  assumes "successively (chainOk g0 g) T" "m \<in> set T"
  shows "findCycleLoop g m (Some (hd T)) acc = Some (rev (takeWhile (\<lambda>x. x \<noteq> m) T) @ acc)"
  using assms
proof (induction T arbitrary: acc)
  case Nil
  then show ?case by simp
next
  case (Cons x T)
  show ?case
  proof (cases "x = m")
    case True
    then show ?thesis by (subst findCycleLoop.simps) simp
  next
    case False
    with Cons.prems obtain y T' where T: "T = y # T'" by (cases T) auto
    with Cons.prems have "parentOf g x = Some (Some y)" by (simp add: chainOk_def)
    then obtain n where n: "getNode g x = Some n" "nparent n = Some y"
      by (auto simp: parentOf_def)
    from Cons.prems False T have "successively (chainOk g0 g) T" "m \<in> set T" by auto
    from Cons.IH [OF this, of "x # acc"] T
    have "findCycleLoop g m (Some y) (x # acc) = Some (rev (takeWhile (\<lambda>x. x \<noteq> m) T) @ x # acc)"
      by simp
    with n False show ?thesis by (subst findCycleLoop.simps) simp
  qed
qed

lemma stack_cycle_closed:
  assumes ch: "successively (chainOk g0 g) (node # S)" and m: "m \<in> set (node # S)"
    and e: "hasEdge g0 node m"
  shows "closedWalk g0 (rev (takeWhile (\<lambda>x. x \<noteq> m) (node # S)) @ [m])"
proof -
  define pre where "pre = takeWhile (\<lambda>x. x \<noteq> m) (node # S)"
  define post where "post = tl (dropWhile (\<lambda>x. x \<noteq> m) (node # S))"
  from m have "dropWhile (\<lambda>x. x \<noteq> m) (node # S) \<noteq> []" by auto
  moreover from this have "hd (dropWhile (\<lambda>x. x \<noteq> m) (node # S)) = m"
    using hd_dropWhile [of "\<lambda>x. x \<noteq> m" "node # S"] by blast
  ultimately have "dropWhile (\<lambda>x. x \<noteq> m) (node # S) = m # post"
    unfolding post_def by (metis list.collapse)
  then have T: "node # S = pre @ m # post"
    unfolding pre_def by (metis takeWhile_dropWhile_id)
  from ch have sp: "successively (chainOk g0 g) pre"
    and j: "pre \<noteq> [] \<longrightarrow> chainOk g0 g (last pre) m"
    unfolding T by (auto simp: successively_append_iff)
  from sp have "successively (\<lambda>x y. hasEdge g0 y x) pre"
    by (rule successively_mono) (simp add: chainOk_def)
  then have r: "successively (hasEdge g0) (rev pre)" by simp
  have h: "pre \<noteq> [] \<longrightarrow> hd pre = node" using T by (cases pre) auto
  have "successively (hasEdge g0) (rev pre @ [m])"
    using r h e by (auto simp: successively_append_iff last_rev)
  moreover have "hasEdge g0 (last (rev pre @ [m])) (hd (rev pre @ [m]))"
  proof (cases "pre = []")
    case True
    with T have "node = m" by simp
    with True e show ?thesis by simp
  next
    case False
    with j have "hasEdge g0 m (last pre)" by (simp add: chainOk_def)
    with False show ?thesis by (simp add: hd_rev)
  qed
  ultimately show ?thesis unfolding closedWalk_def pre_def by simp
qed

lemma time_inv_cong:
  assumes "time v' = time v" "discOf (graph v') = discOf (graph v)" "finOf (graph v') = finOf (graph v)"
    and "\<And>i. stateOf (graph v') i = Some NodeUnvisited \<longleftrightarrow> stateOf (graph v) i = Some NodeUnvisited"
    and "\<And>i. stateOf (graph v') i = Some NodeVisited \<longleftrightarrow> stateOf (graph v) i = Some NodeVisited"
  shows "time_inv v' = time_inv v"
  unfolding time_inv_def by (simp only: assms)

lemma highlightCycle_spec:
  assumes inv: "dfs_inv g0 v (node # S)" and ti: "time_inv v"
    and e: "hasEdge g0 node m" and st: "stateOf (graph v) m = Some Visiting"
  shows "\<exists>v'. highlightCycle v node m = Some v' \<and>
              dfs_inv g0 (v'\<lparr>cycleCount := cycleCount v' + 1\<rparr>) (node # S) \<and>
              time_inv (v'\<lparr>cycleCount := cycleCount v' + 1\<rparr>) \<and>
              unv v' = unv v \<and> done_nodes v' = done_nodes v"
proof -
  let ?g = "graph v"
  define g1 where "g1 = markEdge ?g node m"
  define c where "c = rev (takeWhile (\<lambda>x. x \<noteq> m) (node # S)) @ [m]"
  define g2 where "g2 = fold (\<lambda>node g. updNode g node (\<lambda>n. n\<lparr>nstate := Cycle\<rparr>)) c g1"
  define g3 where "g3 = fold (\<lambda>i g. markEdge g (c ! i) (c ! ((i + 1) mod length c))) [0..<length c] g2"
  define v' where "v' = v\<lparr>graph := g3, cycles := cycles v @ [c]\<rparr>"
  from inv have act: "\<And>i. i \<in> set (node # S) \<longleftrightarrow> stateOf ?g i = Some Visiting \<or> stateOf ?g i = Some Cycle"
    and ch: "successively (chainOk g0 ?g) (node # S)"
    unfolding dfs_inv_def by blast+
  from act st have m: "m \<in> set (node # S)" by blast
  have "chainOk g0 g1 = chainOk g0 ?g" by (simp add: chainOk_def fun_eq_iff g1_def)
  with ch have ch1: "successively (chainOk g0 g1) (node # S)" by simp
  from findCycleLoop_chain [OF ch1 m, of "[m]"]
  have f: "findCycleNodes g1 node m = Some c" by (simp add: findCycleNodes_def c_def)
  have hc: "highlightCycle v node m = Some v'"
    by (simp add: highlightCycle_def Let_def g1_def [symmetric] f g2_def [symmetric]
        g3_def v'_def)
  have cs: "set c \<subseteq> set (node # S)"
    unfolding c_def using m by (auto dest: set_takeWhileD)
  have fr: "ids g3 = ids ?g" "succs g3 = succs ?g" "parentOf g3 = parentOf ?g"
    "discOf g3 = discOf ?g" "finOf g3 = finOf ?g"
    by (simp_all add: g3_def g2_def g1_def)
  have s3: "stateOf g3 i = (if i \<in> set c then Some Cycle else stateOf ?g i)" for i
  proof -
    have "i \<in> set (ids ?g)" if "i \<in> set c"
      using that cs act [of i] by (auto dest: stateOf_Some_ids)
    then show ?thesis by (auto simp: g3_def g2_def fold_setCycle_state g1_def)
  qed
  have u: "stateOf g3 i = Some NodeUnvisited \<longleftrightarrow> stateOf ?g i = Some NodeUnvisited" for i
    using cs act [of i] by (auto simp: s3)
  have d: "stateOf g3 i = Some NodeVisited \<longleftrightarrow> stateOf ?g i = Some NodeVisited" for i
    using cs act [of i] by (auto simp: s3)
  have a3: "i \<in> set (node # S) \<longleftrightarrow> stateOf g3 i = Some Visiting \<or> stateOf g3 i = Some Cycle" for i
    using cs act [of i] by (auto simp: s3)
  have cw: "closedWalk g0 c" unfolding c_def using ch m e by (rule stack_cycle_closed)
  from inv have sg: "succs ?g = succs g0" and om: "\<forall>c'\<in>set (cycles v). marked ?g c'"
    unfolding dfs_inv_def by blast+
  have e3: "estateOf g3 x y =
      (if (\<exists>i\<in>set [0..<length c]. x = c ! i \<and> y = c ! ((i + 1) mod length c)) \<and>
          estateOf g1 x y \<noteq> None
       then Some CycleEdge else estateOf g1 x y)" for x y
    unfolding g3_def g2_def by (simp only: estateOf_fold_markEdge estateOf_fold_setCycle)
  have e1: "estateOf g1 x y \<noteq> None \<longleftrightarrow> estateOf ?g x y \<noteq> None" for x y
    by (auto simp: g1_def estateOf_markEdge)
  have mono: "estateOf g3 x y = Some CycleEdge" if "estateOf ?g x y = Some CycleEdge" for x y
    using that by (auto simp: e3 g1_def estateOf_markEdge)
  have newm: "marked g3 c"
    unfolding marked_def list_all_iff
  proof
    fix i assume i: "i \<in> set [0..<length c]"
    let ?a = "c ! i" and ?b = "c ! ((i + 1) mod length c)"
    from i have "i < length c" by simp
    from closedWalk_nth [OF cw this] have "hasEdge g0 ?a ?b" .
    then have "hasEdge ?g ?a ?b" by (simp only: hasEdge_def sg)
    with hasEdge_estateOf [of ?g ?a ?b] have "estateOf ?g ?a ?b \<noteq> None" by blast
    with e1 [of ?a ?b] have n1: "estateOf g1 ?a ?b \<noteq> None" by blast
    from i have "\<exists>j\<in>set [0..<length c]. ?a = c ! j \<and> ?b = c ! ((j + 1) mod length c)" by blast
    with n1 have cond: "(\<exists>j\<in>set [0..<length c]. ?a = c ! j \<and> ?b = c ! ((j + 1) mod length c)) \<and>
          estateOf g1 ?a ?b \<noteq> None" by (rule conjI [rotated])
    show "estateOf g3 ?a ?b = Some CycleEdge"
      by (subst e3) (rule if_P [OF cond])
  qed
  have mk: "\<forall>c'\<in>set (cycles v @ [c]). marked g3 c'"
    using om newm marked_mono [OF _ mono] by auto
  have ck: "chainOk g0 g3 = chainOk g0 ?g" by (simp add: chainOk_def fun_eq_iff fr)
  have I: "dfs_inv g0 (v'\<lparr>cycleCount := cycleCount v' + 1\<rparr>) (node # S)"
  proof -
    have a3': "\<forall>i. i \<in> set (node # S) \<longleftrightarrow> stateOf g3 i = Some Visiting \<or> stateOf g3 i = Some Cycle"
      using a3 by blast
    show ?thesis
      using inv cw a3' mk unfolding dfs_inv_def v'_def by (simp add: fr ck u)
  qed
  have "time_inv (v'\<lparr>cycleCount := cycleCount v' + 1\<rparr>) = time_inv v"
    by (rule time_inv_cong) (simp_all add: v'_def fr u d)
  with ti hc I show ?thesis by (auto simp: unv_def done_nodes_def v'_def u d)
qed

lemma successively_cong_set:
  "(\<And>a b. a \<in> set xs \<Longrightarrow> P a b = Q a b) \<Longrightarrow> successively P xs = successively Q xs"
  by (induction P xs rule: successively.induct) auto

lemma time_invD:
  assumes "time_inv v"
  shows "0 \<le> time v"
    and "\<And>i d. stateOf (graph v) i \<noteq> Some NodeUnvisited \<Longrightarrow> discOf (graph v) i = Some d \<Longrightarrow>
           0 < d \<and> d \<le> time v"
    and "\<And>i f. stateOf (graph v) i = Some NodeVisited \<Longrightarrow> finOf (graph v) i = Some f \<Longrightarrow> f \<le> time v"
    and "\<And>i d f. stateOf (graph v) i = Some NodeVisited \<Longrightarrow> discOf (graph v) i = Some d \<Longrightarrow>
           finOf (graph v) i = Some f \<Longrightarrow> d < f"
    and "\<And>i j d. i \<noteq> j \<Longrightarrow> stateOf (graph v) i \<noteq> Some NodeUnvisited \<Longrightarrow>
           stateOf (graph v) j \<noteq> Some NodeUnvisited \<Longrightarrow> discOf (graph v) i = Some d \<Longrightarrow>
           discOf (graph v) j \<noteq> Some d"
    and "\<And>i j f. i \<noteq> j \<Longrightarrow> stateOf (graph v) i = Some NodeVisited \<Longrightarrow>
           stateOf (graph v) j = Some NodeVisited \<Longrightarrow> finOf (graph v) i = Some f \<Longrightarrow>
           finOf (graph v) j \<noteq> Some f"
    and "\<And>i j d. stateOf (graph v) i \<noteq> Some NodeUnvisited \<Longrightarrow>
           stateOf (graph v) j = Some NodeVisited \<Longrightarrow> discOf (graph v) i = Some d \<Longrightarrow>
           finOf (graph v) j \<noteq> Some d"
proof -
  note t = assms [unfolded time_inv_def]
  note t1 = t [THEN conjunct2]
  note t2 = t1 [THEN conjunct2]
  note t3 = t2 [THEN conjunct2]
  note t4 = t3 [THEN conjunct2]
  note t5 = t4 [THEN conjunct2]
  show "0 \<le> time v" by (rule t [THEN conjunct1])
  show "\<And>i d. stateOf (graph v) i \<noteq> Some NodeUnvisited \<Longrightarrow> discOf (graph v) i = Some d \<Longrightarrow>
           0 < d \<and> d \<le> time v"
    by (rule t1 [THEN conjunct1, rule_format])
  show "\<And>i f. stateOf (graph v) i = Some NodeVisited \<Longrightarrow> finOf (graph v) i = Some f \<Longrightarrow> f \<le> time v"
    by (rule t2 [THEN conjunct1, rule_format])
  show "\<And>i d f. stateOf (graph v) i = Some NodeVisited \<Longrightarrow> discOf (graph v) i = Some d \<Longrightarrow>
           finOf (graph v) i = Some f \<Longrightarrow> d < f"
    by (rule t3 [THEN conjunct1, rule_format])
  show "\<And>i j d. i \<noteq> j \<Longrightarrow> stateOf (graph v) i \<noteq> Some NodeUnvisited \<Longrightarrow>
           stateOf (graph v) j \<noteq> Some NodeUnvisited \<Longrightarrow> discOf (graph v) i = Some d \<Longrightarrow>
           discOf (graph v) j \<noteq> Some d"
    by (rule t4 [THEN conjunct1, rule_format])
  show "\<And>i j f. i \<noteq> j \<Longrightarrow> stateOf (graph v) i = Some NodeVisited \<Longrightarrow>
           stateOf (graph v) j = Some NodeVisited \<Longrightarrow> finOf (graph v) i = Some f \<Longrightarrow>
           finOf (graph v) j \<noteq> Some f"
    by (rule t5 [THEN conjunct1, rule_format])
  show "\<And>i j d. stateOf (graph v) i \<noteq> Some NodeUnvisited \<Longrightarrow>
           stateOf (graph v) j = Some NodeVisited \<Longrightarrow> discOf (graph v) i = Some d \<Longrightarrow>
           finOf (graph v) j \<noteq> Some d"
    by (rule t5 [THEN conjunct2, rule_format])
qed

lemma time_invI:
  assumes "0 \<le> time v"
    and "\<And>i d. stateOf (graph v) i \<noteq> Some NodeUnvisited \<Longrightarrow> discOf (graph v) i = Some d \<Longrightarrow>
           0 < d \<and> d \<le> time v"
    and "\<And>i f. stateOf (graph v) i = Some NodeVisited \<Longrightarrow> finOf (graph v) i = Some f \<Longrightarrow> f \<le> time v"
    and "\<And>i d f. stateOf (graph v) i = Some NodeVisited \<Longrightarrow> discOf (graph v) i = Some d \<Longrightarrow>
           finOf (graph v) i = Some f \<Longrightarrow> d < f"
    and "\<And>i j d. i \<noteq> j \<Longrightarrow> stateOf (graph v) i \<noteq> Some NodeUnvisited \<Longrightarrow>
           stateOf (graph v) j \<noteq> Some NodeUnvisited \<Longrightarrow> discOf (graph v) i = Some d \<Longrightarrow>
           discOf (graph v) j \<noteq> Some d"
    and "\<And>i j f. i \<noteq> j \<Longrightarrow> stateOf (graph v) i = Some NodeVisited \<Longrightarrow>
           stateOf (graph v) j = Some NodeVisited \<Longrightarrow> finOf (graph v) i = Some f \<Longrightarrow>
           finOf (graph v) j \<noteq> Some f"
    and "\<And>i j d. stateOf (graph v) i \<noteq> Some NodeUnvisited \<Longrightarrow>
           stateOf (graph v) j = Some NodeVisited \<Longrightarrow> discOf (graph v) i = Some d \<Longrightarrow>
           finOf (graph v) j \<noteq> Some d"
  shows "time_inv v"
  unfolding time_inv_def
  apply (rule conjI, rule assms(1))
  apply (rule conjI, intro allI impI, erule (1) assms(2))
  apply (rule conjI, intro allI impI, erule (1) assms(3))
  apply (rule conjI, intro allI impI, erule (2) assms(4))
  apply (rule conjI, intro allI impI, erule (3) assms(5))
  apply (rule conjI, intro allI impI, erule (3) assms(6))
  apply (intro allI impI, erule (2) assms(7))
  done

lemma beginVisit_spec:
  assumes inv: "dfs_inv g0 v S" and ti: "time_inv v"
    and u: "stateOf (graph v) node = Some NodeUnvisited"
    and e: "S \<noteq> [] \<longrightarrow> hasEdge g0 (hd S) node"
  shows "dfs_inv g0 (beginVisit (enter v node S) node) (node # S) \<and>
         time_inv (beginVisit (enter v node S) node) \<and>
         unv (beginVisit (enter v node S) node) = unv v - {node} \<and>
         done_nodes (beginVisit (enter v node S) node) = done_nodes v"
proof -
  let ?g = "graph v"
  define v1 where "v1 = beginVisit (enter v node S) node"
  let ?g1 = "graph v1"
  from u have nid: "node \<in> set (ids ?g)" by (rule stateOf_Some_ids)
  from inv have act: "\<And>i. i \<in> set S \<longleftrightarrow> stateOf ?g i = Some Visiting \<or> stateOf ?g i = Some Cycle"
    and ch: "successively (chainOk g0 ?g) S"
    and lst: "S \<noteq> [] \<longrightarrow> parentOf ?g (last S) = Some None"
    and up: "\<And>i. stateOf ?g i = Some NodeUnvisited \<Longrightarrow> parentOf ?g i = Some None"
    and dS: "distinct S"
    unfolding dfs_inv_def by blast+
  from act [of node] u have nS: "node \<notin> set S" by simp
  have fr: "ids ?g1 = ids ?g" "succs ?g1 = succs ?g" "finOf ?g1 = finOf ?g"
    "time v1 = time v + 1" "cycles v1 = cycles v" "cycleCount v1 = cycleCount v"
    "isRunning v1 = isRunning v" "isPaused v1 = isPaused v" "estateOf ?g1 = estateOf ?g"
    by (cases S; simp add: v1_def beginVisit_def enter_def succs_updNode finOf_updNode_same
          estateOf_updNode_same)+
  have mkd: "marked ?g1 = marked ?g" by (rule marked_cong) (rule fr)
  have s1: "stateOf ?g1 i = (if i = node then Some Visiting else stateOf ?g i)" for i
    using nid
    by (cases S) (simp_all add: v1_def beginVisit_def enter_def stateOf_updNode_const stateOf_updNode_same)
  have d1: "discOf ?g1 i = (if i = node then Some (time v + 1) else discOf ?g i)" for i
    using nid
    by (cases S) (simp_all add: v1_def beginVisit_def enter_def discOf_updNode_const discOf_updNode_same)
  have p1: "parentOf ?g1 i = (if i = node then Some (case S of [] \<Rightarrow> None | p # _ \<Rightarrow> Some p) else parentOf ?g i)" for i
    using nid up [OF u]
    by (cases S) (simp_all add: v1_def beginVisit_def enter_def parentOf_updNode_const parentOf_updNode_same)
  have ck: "chainOk g0 ?g1 a b = chainOk g0 ?g a b" if "a \<in> set S" for a b
    using that nS by (auto simp: chainOk_def p1)
  have ch1: "successively (chainOk g0 ?g1) (node # S)"
  proof (cases S)
    case Nil
    then show ?thesis by simp
  next
    case (Cons p S')
    have "successively (chainOk g0 ?g1) S" using ch successively_cong_set [of S, OF ck] by simp
    moreover have "chainOk g0 ?g1 node p" using e Cons by (simp add: chainOk_def p1)
    ultimately show ?thesis using Cons by simp
  qed
  have l1: "parentOf ?g1 (last (node # S)) = Some None"
  proof (cases S)
    case Nil
    then show ?thesis by (simp add: p1)
  next
    case (Cons p S')
    then have "last S \<in> set S" by simp
    with nS have "last S \<noteq> node" by auto
    with lst Cons show ?thesis by (simp add: p1)
  qed
  have a1: "\<forall>i. i \<in> set (node # S) \<longleftrightarrow> stateOf ?g1 i = Some Visiting \<or> stateOf ?g1 i = Some Cycle"
    using act by (auto simp: s1)
  have u1: "\<forall>i. stateOf ?g1 i = Some NodeUnvisited \<longrightarrow> parentOf ?g1 i = Some None"
    using up by (auto simp: s1 p1)
  have I: "dfs_inv g0 v1 (node # S)"
    unfolding dfs_inv_def
    using inv nS dS ch1 l1 a1 u1 by (simp add: dfs_inv_def fr mkd del: successively.simps last.simps)
  note t0 = time_invD(1) [OF ti] and ta = time_invD(2) [OF ti] and tb = time_invD(3) [OF ti]
    and tc = time_invD(4) [OF ti] and td = time_invD(5) [OF ti] and te = time_invD(6) [OF ti]
    and tf = time_invD(7) [OF ti]
  have T0: "0 \<le> time v1" using t0 by (simp add: fr)
  have Ta: "0 < d \<and> d \<le> time v1"
    if "stateOf ?g1 i \<noteq> Some NodeUnvisited" "discOf ?g1 i = Some d" for i d
  proof (cases "i = node")
    case True
    with that t0 show ?thesis by (simp add: d1 fr)
  next
    case False
    with that ta [of i d] show ?thesis by (simp add: s1 d1 fr)
  qed
  have Tb: "f \<le> time v1" if "stateOf ?g1 i = Some NodeVisited" "finOf ?g1 i = Some f" for i f
    using that tb [of i f] by (simp add: s1 fr split: if_splits)
  have Tc: "d < f"
    if "stateOf ?g1 i = Some NodeVisited" "discOf ?g1 i = Some d" "finOf ?g1 i = Some f" for i d f
    using that tc [of i d f] by (simp add: s1 d1 fr split: if_splits)
  have Td: "discOf ?g1 j \<noteq> Some d"
    if "i \<noteq> j" "stateOf ?g1 i \<noteq> Some NodeUnvisited" "stateOf ?g1 j \<noteq> Some NodeUnvisited"
      "discOf ?g1 i = Some d" for i j d
  proof (cases "i = node")
    case True
    with that ta [of j d] show ?thesis by (auto simp: s1 d1)
  next
    case False
    note i = this
    show ?thesis
    proof (cases "j = node")
      case True
      with that i ta [of i d] show ?thesis by (auto simp: s1 d1)
    next
      case False
      with that i td [of i j d] show ?thesis by (simp add: s1 d1)
    qed
  qed
  have Te: "finOf ?g1 j \<noteq> Some f"
    if "i \<noteq> j" "stateOf ?g1 i = Some NodeVisited" "stateOf ?g1 j = Some NodeVisited"
      "finOf ?g1 i = Some f" for i j f
    using that te [of i j f] by (simp add: s1 fr split: if_splits)
  have Tf: "finOf ?g1 j \<noteq> Some d"
    if "stateOf ?g1 i \<noteq> Some NodeUnvisited" "stateOf ?g1 j = Some NodeVisited"
      "discOf ?g1 i = Some d" for i j d
  proof (cases "i = node")
    case True
    with that tb [of j d] show ?thesis by (auto simp: s1 d1 fr split: if_splits)
  next
    case False
    with that tf [of i j d] show ?thesis by (simp add: s1 d1 fr split: if_splits)
  qed
  have T: "time_inv v1"
    using T0 Ta Tb Tc Td Te Tf by (rule time_invI)
  have "unv v1 = unv v - {node}" "done_nodes v1 = done_nodes v"
    using u by (auto simp: unv_def done_nodes_def s1)
  with I T show ?thesis unfolding v1_def by simp
qed

lemma stateOf_Some_disc: "stateOf g i = Some s \<Longrightarrow> \<exists>d. discOf g i = Some d"
  by (auto simp: stateOf_def discOf_def)

lemma endVisit_spec:
  assumes inv: "dfs_inv g0 v (node # S)" and ti: "time_inv v"
  shows "dfs_inv g0 (endVisit v node) S \<and> time_inv (endVisit v node) \<and>
         stateOf (graph (endVisit v node)) node = Some NodeVisited \<and>
         unv (endVisit v node) = unv v \<and>
         done_nodes (endVisit v node) = insert node (done_nodes v)"
proof -
  let ?g = "graph v"
  define v1 where "v1 = endVisit v node"
  let ?g1 = "graph v1"
  from inv have act: "\<And>i. i \<in> set (node # S) \<longleftrightarrow> stateOf ?g i = Some Visiting \<or> stateOf ?g i = Some Cycle"
    and ch: "successively (chainOk g0 ?g) (node # S)"
    and lst: "parentOf ?g (last (node # S)) = Some None"
    and up: "\<And>i. stateOf ?g i = Some NodeUnvisited \<Longrightarrow> parentOf ?g i = Some None"
    and dS: "distinct (node # S)"
    unfolding dfs_inv_def by blast+
  from act [of node] have na: "stateOf ?g node = Some Visiting \<or> stateOf ?g node = Some Cycle" by simp
  then have nid: "node \<in> set (ids ?g)" by (auto dest: stateOf_Some_ids)
  from dS have nS: "node \<notin> set S" by simp
  have fr: "ids ?g1 = ids ?g" "succs ?g1 = succs ?g" "discOf ?g1 = discOf ?g" "parentOf ?g1 = parentOf ?g"
    "time v1 = time v + 1" "cycles v1 = cycles v" "cycleCount v1 = cycleCount v"
    "isRunning v1 = isRunning v" "isPaused v1 = isPaused v" "estateOf ?g1 = estateOf ?g"
    by (simp_all add: v1_def endVisit_def succs_updNode discOf_updNode_same parentOf_updNode_same
        estateOf_updNode_same)
  have mkd: "marked ?g1 = marked ?g" by (rule marked_cong) (rule fr)
  have s1: "stateOf ?g1 i = (if i = node then Some NodeVisited else stateOf ?g i)" for i
    using nid by (simp add: v1_def endVisit_def stateOf_updNode_const)
  have f1: "finOf ?g1 i = (if i = node then Some (time v + 1) else finOf ?g i)" for i
    using nid by (simp add: v1_def endVisit_def finOf_updNode_const)
  have ck: "chainOk g0 ?g1 = chainOk g0 ?g" by (simp add: chainOk_def fun_eq_iff fr)
  have ch1: "successively (chainOk g0 ?g1) S"
    using ch unfolding ck by (cases S) simp_all
  have l1: "S \<noteq> [] \<longrightarrow> parentOf ?g1 (last S) = Some None"
    using lst by (auto simp: fr)
  have a1: "\<forall>i. i \<in> set S \<longleftrightarrow> stateOf ?g1 i = Some Visiting \<or> stateOf ?g1 i = Some Cycle"
    using act nS by (auto simp: s1)
  have u1: "\<forall>i. stateOf ?g1 i = Some NodeUnvisited \<longrightarrow> parentOf ?g1 i = Some None"
    using up by (auto simp: s1 fr)
  have I: "dfs_inv g0 v1 S"
    unfolding dfs_inv_def
    using inv dS ch1 l1 a1 u1 by (simp add: dfs_inv_def fr mkd)
  note t0 = time_invD(1) [OF ti] and ta = time_invD(2) [OF ti] and tb = time_invD(3) [OF ti]
    and tc = time_invD(4) [OF ti] and td = time_invD(5) [OF ti] and te = time_invD(6) [OF ti]
    and tf = time_invD(7) [OF ti]
  have nu: "stateOf ?g node \<noteq> Some NodeUnvisited" "stateOf ?g node \<noteq> Some NodeVisited"
    using na by auto
  have T0: "0 \<le> time v1" using t0 by (simp add: fr)
  have Ta: "0 < d \<and> d \<le> time v1"
    if "stateOf ?g1 i \<noteq> Some NodeUnvisited" "discOf ?g1 i = Some d" for i d
  proof (cases "i = node")
    case True
    with that ta [of node d] nu show ?thesis by (simp add: fr)
  next
    case False
    with that ta [of i d] show ?thesis by (simp add: s1 fr)
  qed
  have Tb: "f \<le> time v1" if "stateOf ?g1 i = Some NodeVisited" "finOf ?g1 i = Some f" for i f
  proof (cases "i = node")
    case True
    with that show ?thesis by (simp add: f1 fr)
  next
    case False
    with that tb [of i f] show ?thesis by (simp add: s1 f1 fr)
  qed
  have Tc: "d < f"
    if "stateOf ?g1 i = Some NodeVisited" "discOf ?g1 i = Some d" "finOf ?g1 i = Some f" for i d f
  proof (cases "i = node")
    case True
    with that ta [of node d] nu show ?thesis by (simp add: f1 fr)
  next
    case False
    with that tc [of i d f] show ?thesis by (simp add: s1 f1 fr)
  qed
  have Td: "discOf ?g1 j \<noteq> Some d"
    if "i \<noteq> j" "stateOf ?g1 i \<noteq> Some NodeUnvisited" "stateOf ?g1 j \<noteq> Some NodeUnvisited"
      "discOf ?g1 i = Some d" for i j d
  proof -
    have "stateOf ?g i \<noteq> Some NodeUnvisited" "stateOf ?g j \<noteq> Some NodeUnvisited"
      using that nu by (auto simp: s1 split: if_splits)
    with that td [of i j d] show ?thesis by (simp add: fr)
  qed
  have Te: "finOf ?g1 j \<noteq> Some f"
    if "i \<noteq> j" "stateOf ?g1 i = Some NodeVisited" "stateOf ?g1 j = Some NodeVisited"
      "finOf ?g1 i = Some f" for i j f
  proof (cases "i = node")
    case True
    with that tb [of j f] show ?thesis by (auto simp: s1 f1)
  next
    case False
    note i = this
    show ?thesis
    proof (cases "j = node")
      case True
      with that i tb [of i f] show ?thesis by (auto simp: s1 f1)
    next
      case False
      with that i te [of i j f] show ?thesis by (simp add: s1 f1)
    qed
  qed
  have Tf: "finOf ?g1 j \<noteq> Some d"
    if "stateOf ?g1 i \<noteq> Some NodeUnvisited" "stateOf ?g1 j = Some NodeVisited"
      "discOf ?g1 i = Some d" for i j d
  proof -
    have iu: "stateOf ?g i \<noteq> Some NodeUnvisited"
      using that nu by (auto simp: s1 split: if_splits)
    show ?thesis
    proof (cases "j = node")
      case True
      with that ta [of i d] iu show ?thesis by (auto simp: f1 fr)
    next
      case False
      with that tf [of i j d] iu show ?thesis by (simp add: s1 f1 fr)
    qed
  qed
  have T: "time_inv v1"
    using T0 Ta Tb Tc Td Te Tf by (rule time_invI)
  have "unv v1 = unv v" "done_nodes v1 = insert node (done_nodes v)"
    using nu by (auto simp: unv_def done_nodes_def s1)
  with I T s1 [of node] show ?thesis unfolding v1_def by simp
qed

lemma finite_unv [simp]: "finite (unv v)"
proof -
  have "unv v \<subseteq> set (ids (graph v))" by (auto simp: unv_def dest: stateOf_Some_ids)
  then show ?thesis by (rule finite_subset) simp
qed

lemma succs_enter [simp]: "succs (graph (enter v node S)) = succs (graph v)"
  by (cases S) (simp_all add: enter_def succs_updNode)

lemma ids_enter [simp]: "ids (graph (enter v node S)) = ids (graph v)"
  by (cases S) (simp_all add: enter_def)

lemma dfsEdges_spec:
  assumes IH: "visit_ok g0 k"
  shows "dfs_inv g0 v (node # S) \<Longrightarrow> time_inv v \<Longrightarrow> set rest \<subseteq> set (succs g0 node) \<Longrightarrow>
         card (unv v) \<le> k \<Longrightarrow>
         \<exists>v'. dfsEdges (dfsVisit k) node rest v = Some v' \<and> dfs_inv g0 v' S \<and> time_inv v' \<and>
              stateOf (graph v') node = Some NodeVisited \<and> unv v' \<subseteq> unv v \<and>
              done_nodes v \<subseteq> done_nodes v'"
proof (induction rest arbitrary: v)
  case Nil
  from endVisit_spec [OF Nil.prems(1,2)] show ?case by auto
next
  case (Cons m rest)
  note inv = Cons.prems(1) and ti = Cons.prems(2)
  from Cons.prems(3) have e: "hasEdge g0 node m" and rs: "set rest \<subseteq> set (succs g0 node)"
    by (simp_all add: hasEdge_def)
  from inv have idg: "ids (graph v) = ids g0" and wf: "wf_graph g0" and run: "isRunning v"
    unfolding dfs_inv_def by blast+
  from wf e have "m \<in> set (ids g0)" unfolding wf_graph_def by blast
  with idg obtain nb where nb: "getNode (graph v) m = Some nb"
    using getNode_Some_iff [of "graph v" m] by auto
  then have sm: "stateOf (graph v) m = Some (nstate nb)" by (simp add: stateOf_def)
  have step: "\<exists>v1. (if nstate nb = NodeUnvisited
                 then dfsVisit k (v\<lparr>graph := updNode (graph v) m (\<lambda>n. n\<lparr>nparent := Some node\<rparr>)\<rparr>) m
                 else if nstate nb = Visiting
                 then map_option (\<lambda>v'. v'\<lparr>cycleCount := cycleCount v' + 1\<rparr>) (highlightCycle v node m)
                 else Some v) = Some v1 \<and>
            dfs_inv g0 v1 (node # S) \<and> time_inv v1 \<and> unv v1 \<subseteq> unv v \<and> done_nodes v \<subseteq> done_nodes v1"
  proof (cases "nstate nb = NodeUnvisited")
    case True
    have en: "enter v m (node # S) = v\<lparr>graph := updNode (graph v) m (\<lambda>n. n\<lparr>nparent := Some node\<rparr>)\<rparr>"
      by (simp add: enter_def)
    from IH [unfolded visit_ok_def, rule_format, OF inv ti _ _ Cons.prems(4), of m] sm True e
    obtain v1 where "dfsVisit k (enter v m (node # S)) m = Some v1" "dfs_inv g0 v1 (node # S)"
      "time_inv v1" "unv v1 \<subseteq> unv v - {m}" "done_nodes v \<subseteq> done_nodes v1"
      by auto
    with True show ?thesis unfolding en by auto
  next
    case False
    note nu = this
    show ?thesis
    proof (cases "nstate nb = Visiting")
      case True
      with sm have "stateOf (graph v) m = Some Visiting" by simp
      from highlightCycle_spec [OF inv ti e this] obtain v1 where
        v1: "highlightCycle v node m = Some v1"
          "dfs_inv g0 (v1\<lparr>cycleCount := cycleCount v1 + 1\<rparr>) (node # S)"
          "time_inv (v1\<lparr>cycleCount := cycleCount v1 + 1\<rparr>)" "unv v1 = unv v" "done_nodes v1 = done_nodes v"
        by blast
      have "unv (v1\<lparr>cycleCount := cycleCount v1 + 1\<rparr>) = unv v1"
        "done_nodes (v1\<lparr>cycleCount := cycleCount v1 + 1\<rparr>) = done_nodes v1"
        by (simp_all add: unv_def done_nodes_def)
      with v1 True nu show ?thesis by simp
    next
      case False
      with nu inv ti show ?thesis by simp
    qed
  qed
  then obtain v1 where v1: "(if nstate nb = NodeUnvisited
                 then dfsVisit k (v\<lparr>graph := updNode (graph v) m (\<lambda>n. n\<lparr>nparent := Some node\<rparr>)\<rparr>) m
                 else if nstate nb = Visiting
                 then map_option (\<lambda>v'. v'\<lparr>cycleCount := cycleCount v' + 1\<rparr>) (highlightCycle v node m)
                 else Some v) = Some v1"
    and i1: "dfs_inv g0 v1 (node # S)" and t1: "time_inv v1" and u1: "unv v1 \<subseteq> unv v"
    and d1: "done_nodes v \<subseteq> done_nodes v1"
    by blast
  from i1 have r1: "isRunning v1" unfolding dfs_inv_def by blast
  from u1 have "card (unv v1) \<le> card (unv v)" by (intro card_mono) simp_all
  with Cons.prems(4) have c1: "card (unv v1) \<le> k" by simp
  from Cons.IH [OF i1 t1 rs c1] obtain v' where
    v': "dfsEdges (dfsVisit k) node rest v1 = Some v'" "dfs_inv g0 v' S" "time_inv v'"
      "stateOf (graph v') node = Some NodeVisited" "unv v' \<subseteq> unv v1" "done_nodes v1 \<subseteq> done_nodes v'"
    by blast
  have "dfsEdges (dfsVisit k) node (m # rest) v = Some v'"
    using nb v1 r1 v'(1) by simp
  with v' u1 d1 show ?case by blast
qed

lemma dfsVisit_spec: "visit_ok g0 k"
proof (induction k)
  case 0
  show ?case
    unfolding visit_ok_def
  proof (intro allI impI)
    fix v node S
    assume "stateOf (graph v) node = Some NodeUnvisited" "card (unv v) \<le> 0"
    then have "node \<in> unv v" "card (unv v) = 0" by (simp_all add: unv_def)
    then have "node \<in> unv v" "unv v = {}" by simp_all
    then show "\<exists>v'. dfsVisit 0 (enter v node S) node = Some v' \<and> dfs_inv g0 v' S \<and> time_inv v' \<and>
              stateOf (graph v') node = Some NodeVisited \<and> unv v' \<subseteq> unv v - {node} \<and>
              done_nodes v \<subseteq> done_nodes v'" by simp
  qed
next
  case (Suc k)
  show ?case
    unfolding visit_ok_def
  proof (intro allI impI)
    fix v node S
    assume inv: "dfs_inv g0 v S" and ti: "time_inv v"
      and u: "stateOf (graph v) node = Some NodeUnvisited"
      and e: "S \<noteq> [] \<longrightarrow> hasEdge g0 (hd S) node" and c: "card (unv v) \<le> Suc k"
    define v0 where "v0 = enter v node S"
    from inv have sg: "succs (graph v) = succs g0" unfolding dfs_inv_def by blast
    from u have "node \<in> set (ids (graph v0))" by (auto simp: v0_def dest: stateOf_Some_ids)
    then obtain n where n: "getNode (graph v0) node = Some n"
      using getNode_Some_iff [of "graph v0" node] by auto
    then have "map fst (neighbors n) = succs (graph v0) node" by (simp add: succs_def)
    also have "\<dots> = succs g0 node" by (simp add: v0_def sg)
    finally have sn: "map fst (neighbors n) = succs g0 node" .
    from beginVisit_spec [OF inv ti u e]
    have b: "dfs_inv g0 (beginVisit v0 node) (node # S)" "time_inv (beginVisit v0 node)"
      "unv (beginVisit v0 node) = unv v - {node}" "done_nodes (beginVisit v0 node) = done_nodes v"
      by (simp_all add: v0_def)
    from u have "node \<in> unv v" by (simp add: unv_def)
    then have "card (unv v - {node}) < card (unv v)" by (intro card_Diff1_less) simp_all
    with c b have c1: "card (unv (beginVisit v0 node)) \<le> k" by simp
    from dfsEdges_spec [OF Suc b(1,2) _ c1, of "succs g0 node"] obtain v' where
      v': "dfsEdges (dfsVisit k) node (succs g0 node) (beginVisit v0 node) = Some v'"
        "dfs_inv g0 v' S" "time_inv v'" "stateOf (graph v') node = Some NodeVisited"
        "unv v' \<subseteq> unv (beginVisit v0 node)" "done_nodes (beginVisit v0 node) \<subseteq> done_nodes v'"
      by auto
    have "dfsVisit (Suc k) v0 node = Some v'" using n sn v'(1) by simp
    with v' b show "\<exists>v'. dfsVisit (Suc k) (enter v node S) node = Some v' \<and> dfs_inv g0 v' S \<and>
              time_inv v' \<and> stateOf (graph v') node = Some NodeVisited \<and> unv v' \<subseteq> unv v - {node} \<and>
              done_nodes v \<subseteq> done_nodes v'"
      unfolding v0_def by auto
  qed
qed

lemma enter_Nil [simp]: "enter v node [] = v"
  by (simp add: enter_def)

lemma runDFSLoop_spec:
  "dfs_inv g0 v [] \<Longrightarrow> time_inv v \<Longrightarrow> set ns \<subseteq> set (ids g0) \<Longrightarrow> card (unv v) \<le> fuel \<Longrightarrow>
   \<exists>v'. runDFSLoop fuel ns v = Some v' \<and> dfs_inv g0 v' [] \<and> time_inv v' \<and>
        set ns \<subseteq> done_nodes v' \<and> done_nodes v \<subseteq> done_nodes v' \<and> unv v' \<subseteq> unv v"
proof (induction ns arbitrary: v)
  case Nil
  then show ?case by simp
next
  case (Cons node rest)
  note inv = Cons.prems(1) and ti = Cons.prems(2)
  from inv have idg: "ids (graph v) = ids g0" and np: "\<not> isPaused v"
    and act: "\<And>i. \<not> (stateOf (graph v) i = Some Visiting \<or> stateOf (graph v) i = Some Cycle)"
    unfolding dfs_inv_def by auto
  from Cons.prems(3) idg obtain n where n: "getNode (graph v) node = Some n"
    using getNode_Some_iff [of "graph v" node] by auto
  then have sn: "stateOf (graph v) node = Some (nstate n)" by (simp add: stateOf_def)
  have "\<exists>v1. (if nstate n = NodeUnvisited \<and> \<not> isPaused v then dfsVisit fuel v node else Some v) = Some v1 \<and>
          dfs_inv g0 v1 [] \<and> time_inv v1 \<and> node \<in> done_nodes v1 \<and> done_nodes v \<subseteq> done_nodes v1 \<and>
          unv v1 \<subseteq> unv v"
  proof (cases "nstate n = NodeUnvisited")
    case True
    from dfsVisit_spec [of g0 fuel, unfolded visit_ok_def, rule_format, OF inv ti _ _ Cons.prems(4), of node]
      sn True
    obtain v1 where "dfsVisit fuel v node = Some v1" "dfs_inv g0 v1 []" "time_inv v1"
      "stateOf (graph v1) node = Some NodeVisited" "unv v1 \<subseteq> unv v - {node}"
      "done_nodes v \<subseteq> done_nodes v1"
      by auto
    with True np show ?thesis by (auto simp: done_nodes_def)
  next
    case False
    with act [of node] sn have "nstate n = NodeVisited" by (cases "nstate n") auto
    with sn have "node \<in> done_nodes v" by (simp add: done_nodes_def)
    with False inv ti show ?thesis by simp
  qed
  then obtain v1 where
    v1: "(if nstate n = NodeUnvisited \<and> \<not> isPaused v then dfsVisit fuel v node else Some v) = Some v1"
    and i1: "dfs_inv g0 v1 []" and t1: "time_inv v1" and d1: "node \<in> done_nodes v1"
    and m1: "done_nodes v \<subseteq> done_nodes v1" and u1: "unv v1 \<subseteq> unv v"
    by blast
  from u1 have "card (unv v1) \<le> card (unv v)" by (intro card_mono) simp_all
  with Cons.prems(4) have c1: "card (unv v1) \<le> fuel" by simp
  from Cons.prems(3) have rs: "set rest \<subseteq> set (ids g0)" by simp
  from Cons.IH [OF i1 t1 rs c1] obtain v' where
    v': "runDFSLoop fuel rest v1 = Some v'" "dfs_inv g0 v' []" "time_inv v'"
      "set rest \<subseteq> done_nodes v'" "done_nodes v1 \<subseteq> done_nodes v'" "unv v' \<subseteq> unv v1"
    by blast
  have "runDFSLoop fuel (node # rest) v = Some v'"
    using n v1 v'(1) by (auto split: if_splits)
  with v' d1 m1 u1 show ?case by auto
qed

lemma getNode_resetGraph: "getNode (resetGraph g) i = map_option resetNode (getNode g i)"
  by (simp add: getNode_def resetGraph_def map_of_map)

lemma map_fst_map_snd [simp]: "map fst (map (\<lambda>(k, x). (k, f x)) xs) = map fst xs"
  by (induction xs) auto

lemma resetGraph_frame:
  "ids (resetGraph g) = ids g" "succs (resetGraph g) = succs g"
proof -
  show "ids (resetGraph g) = ids g" by (auto simp: ids_def resetGraph_def)
  have "succs (resetGraph g) i = succs g i" for i
    by (cases "getNode g i") (auto simp: succs_def getNode_resetGraph resetNode_def)
  then show "succs (resetGraph g) = succs g" by (simp add: fun_eq_iff)
qed

lemma resetGraph_fields:
  "stateOf (resetGraph g) i = (if i \<in> set (ids g) then Some NodeUnvisited else None)"
  "parentOf (resetGraph g) i = (if i \<in> set (ids g) then Some None else None)"
  using getNode_Some_iff [of g i]
  by (cases "getNode g i"; simp add: stateOf_def parentOf_def getNode_resetGraph resetNode_def)+

lemma prepareDFS_inv:
  assumes "wf_graph (graph v)"
  shows "dfs_inv (graph v) (prepareDFS v) [] \<and> time_inv (prepareDFS v) \<and>
         card (unv (prepareDFS v)) \<le> length (nodes (graph v))"
proof -
  have g: "graph (prepareDFS v) = resetGraph (graph v)" by (simp add: prepareDFS_def)
  have I: "dfs_inv (graph v) (prepareDFS v) []"
    unfolding dfs_inv_def g
    using assms by (simp add: resetGraph_frame resetGraph_fields) (simp add: prepareDFS_def)
  have st: "stateOf (resetGraph (graph v)) i = (if i \<in> set (ids (graph v)) then Some NodeUnvisited else None)" for i
    by (rule resetGraph_fields)
  have s1: "stateOf (graph (prepareDFS v)) i \<noteq> Some NodeVisited" for i
    unfolding g st by simp
  have s2: "discOf (graph (prepareDFS v)) i = None"
    if "stateOf (graph (prepareDFS v)) i \<noteq> Some NodeUnvisited" for i
  proof -
    from that have "i \<notin> set (ids (graph v))" unfolding g st by (simp split: if_splits)
    with getNode_Some_iff [of "graph v" i] have "getNode (graph v) i = None" by auto
    then show ?thesis unfolding g by (simp add: discOf_def getNode_resetGraph)
  qed
  note s = s1 s2
  have T: "time_inv (prepareDFS v)"
    by (rule time_invI) (simp_all add: s, simp add: prepareDFS_def)
  have "unv (prepareDFS v) \<subseteq> set (ids (graph v))"
    by (auto simp: unv_def g resetGraph_fields split: if_splits)
  then have "card (unv (prepareDFS v)) \<le> card (set (ids (graph v)))" by (intro card_mono) simp_all
  also have "\<dots> \<le> length (nodes (graph v))" using card_length [of "ids (graph v)"] by (simp add: ids_def)
  finally show ?thesis using I T by simp
qed

lemma runDFS_post:
  assumes "wf_graph (graph v)" "length (nodes (graph v)) \<le> fuel"
  shows "\<exists>v'. runDFS fuel (prepareDFS v) = Some v' \<and> dfs_inv (graph v) v' [] \<and> time_inv v' \<and>
              set (ids (graph v)) \<subseteq> done_nodes v'"
proof -
  from prepareDFS_inv [OF assms(1)] assms(2)
  have p: "dfs_inv (graph v) (prepareDFS v) []" "time_inv (prepareDFS v)"
    "card (unv (prepareDFS v)) \<le> fuel" by simp_all
  have i: "map fst (nodes (graph (prepareDFS v))) = ids (graph v)"
    by (simp add: prepareDFS_def resetGraph_frame [unfolded ids_def] ids_def)
  from runDFSLoop_spec [OF p(1,2) _ p(3), of "ids (graph v)"] show ?thesis
    unfolding runDFS_def i by auto
qed

section \<open>A run on a graph with a cycle records a cycle\<close>

text \<open>The list \<open>cycles\<close> only grows: a run that ends with none recorded never had one.\<close>

lemma highlightCycle_cycles: "highlightCycle v a b = Some v' \<Longrightarrow> cycles v' \<noteq> []"
  by (auto simp: highlightCycle_def Let_def split: option.splits)

lemma dfsEdges_cycles:
  assumes visit: "\<And>v node v'. visit v node = Some v' \<Longrightarrow> cycles v' = [] \<Longrightarrow> cycles v = []"
  shows "dfsEdges visit node es v = Some v' \<Longrightarrow> cycles v' = [] \<Longrightarrow> cycles v = []"
proof (induction es arbitrary: v)
  case Nil
  then show ?case by (auto simp: endVisit_def)
next
  case (Cons m es)
  from Cons.prems(1) obtain nb where nb: "getNode (graph v) m = Some nb"
    by (cases "getNode (graph v) m") simp_all
  let ?step = "if nstate nb = NodeUnvisited
               then visit (v\<lparr>graph := updNode (graph v) m (\<lambda>n. n\<lparr>nparent := Some node\<rparr>)\<rparr>) m
               else if nstate nb = Visiting
               then map_option (\<lambda>v'. v'\<lparr>cycleCount := cycleCount v' + 1\<rparr>) (highlightCycle v node m)
               else Some v"
  from Cons.prems(1) nb obtain v1 where v1: "?step = Some v1"
    by (cases ?step) simp_all
  have c1: "cycles v1 = []"
  proof (cases "isRunning v1")
    case True
    with Cons.prems(1) nb v1 have "dfsEdges visit node es v1 = Some v'" by simp
    from Cons.IH [OF this Cons.prems(2)] show ?thesis .
  next
    case False
    with Cons.prems nb v1 show ?thesis by simp
  qed
  show ?case
  proof (cases "nstate nb = NodeUnvisited")
    case True
    with v1 have "visit (v\<lparr>graph := updNode (graph v) m (\<lambda>n. n\<lparr>nparent := Some node\<rparr>)\<rparr>) m = Some v1"
      by simp
    from visit [OF this c1] show ?thesis by simp
  next
    case False
    note nu = this
    show ?thesis
    proof (cases "nstate nb = Visiting")
      case True
      with nu v1 obtain v2 where "highlightCycle v node m = Some v2" "v1 = v2\<lparr>cycleCount := cycleCount v2 + 1\<rparr>"
        by auto
      with highlightCycle_cycles [OF this(1)] c1 show ?thesis by simp
    next
      case False
      with nu v1 c1 show ?thesis by simp
    qed
  qed
qed

lemma dfsVisit_cycles: "dfsVisit k v node = Some v' \<Longrightarrow> cycles v' = [] \<Longrightarrow> cycles v = []"
proof (induction k arbitrary: v node v')
  case 0
  then show ?case by simp
next
  case (Suc k)
  from Suc.prems(1) obtain n where n: "getNode (graph v) node = Some n"
    by (cases "getNode (graph v) node") simp_all
  with Suc.prems(1) have "dfsEdges (dfsVisit k) node (map fst (neighbors n)) (beginVisit v node) = Some v'"
    by simp
  from dfsEdges_cycles [of "dfsVisit k", OF Suc.IH this Suc.prems(2)]
  show ?case by (simp add: beginVisit_def)
qed

lemma runDFSLoop_cycles: "runDFSLoop fuel ns v = Some v' \<Longrightarrow> cycles v' = [] \<Longrightarrow> cycles v = []"
proof (induction ns arbitrary: v)
  case Nil
  then show ?case by simp
next
  case (Cons node rest)
  from Cons.prems(1) obtain n where n: "getNode (graph v) node = Some n"
    by (cases "getNode (graph v) node") simp_all
  show ?case
  proof (cases "nstate n = NodeUnvisited \<and> \<not> isPaused v")
    case True
    with Cons.prems(1) n obtain v1 where v1: "dfsVisit fuel v node = Some v1"
      and r: "runDFSLoop fuel rest v1 = Some v'"
      by (cases "dfsVisit fuel v node") simp_all
    from Cons.IH [OF r Cons.prems(2)] have "cycles v1 = []" .
    from dfsVisit_cycles [OF v1 this] show ?thesis .
  next
    case False
    with Cons.prems(1) n have "runDFSLoop fuel rest v = Some v'" by auto
    from Cons.IH [OF this Cons.prems(2)] show ?thesis .
  qed
qed

text \<open>
  The steps of \<open>dfsVisit\<close> keep \<open>fin_inv\<close>, as long as no cycle is recorded: when the loop
  over the edges of a node is through, each target was found finished or has been visited
  in between, since a target found in state visiting has a cycle recorded; so the node
  finishes after all of them.
\<close>

lemma stateOf_Some_fin: "stateOf g i = Some s \<Longrightarrow> \<exists>f. finOf g i = Some f"
  by (auto simp: stateOf_def finOf_def)

lemma beginVisit_fin:
  assumes u: "stateOf (graph v) node = Some NodeUnvisited" and fi: "fin_inv v"
  shows "fin_inv (beginVisit (enter v node S) node)"
proof -
  let ?g = "graph v"
  define v1 where "v1 = beginVisit (enter v node S) node"
  let ?g1 = "graph v1"
  from u have nid: "node \<in> set (ids ?g)" by (rule stateOf_Some_ids)
  have fr: "succs ?g1 = succs ?g" "finOf ?g1 = finOf ?g"
    by (cases S; simp add: v1_def beginVisit_def enter_def succs_updNode finOf_updNode_same)+
  have s1: "stateOf ?g1 i = (if i = node then Some Visiting else stateOf ?g i)" for i
    using nid
    by (cases S) (simp_all add: v1_def beginVisit_def enter_def stateOf_updNode_const stateOf_updNode_same)
  from fi have nc: "\<And>i. stateOf ?g i \<noteq> Some Cycle"
    and ed: "\<And>a b. hasEdge ?g a b \<Longrightarrow> stateOf ?g a = Some NodeVisited \<Longrightarrow>
               stateOf ?g b = Some NodeVisited \<and> the (finOf ?g b) < the (finOf ?g a)"
    unfolding fin_inv_def by blast+
  have "stateOf ?g1 i \<noteq> Some Cycle" for i using nc [of i] by (simp add: s1)
  moreover have "stateOf ?g1 b = Some NodeVisited \<and> the (finOf ?g1 b) < the (finOf ?g1 a)"
    if "hasEdge ?g1 a b" "stateOf ?g1 a = Some NodeVisited" for a b
  proof -
    from that have "hasEdge ?g a b" "stateOf ?g a = Some NodeVisited"
      by (simp_all add: hasEdge_def fr s1 split: if_splits)
    from ed [OF this] u show ?thesis by (auto simp: s1 fr)
  qed
  ultimately show ?thesis unfolding fin_inv_def v1_def [symmetric] by blast
qed

lemma endVisit_fin:
  assumes inv: "dfs_inv g0 v (node # S)" and ti: "time_inv v" and fi: "fin_inv v"
    and pr: "\<And>b. hasEdge g0 node b \<Longrightarrow> stateOf (graph v) b = Some NodeVisited"
  shows "fin_inv (endVisit v node)"
proof -
  let ?g = "graph v"
  define v1 where "v1 = endVisit v node"
  let ?g1 = "graph v1"
  from inv have act: "\<And>i. i \<in> set (node # S) \<longleftrightarrow> stateOf ?g i = Some Visiting \<or> stateOf ?g i = Some Cycle"
    and sg: "succs ?g = succs g0"
    unfolding dfs_inv_def by blast+
  from act [of node] have na: "stateOf ?g node = Some Visiting \<or> stateOf ?g node = Some Cycle" by simp
  then have nid: "node \<in> set (ids ?g)" by (auto dest: stateOf_Some_ids)
  have fr: "succs ?g1 = succs ?g"
    by (simp_all add: v1_def endVisit_def succs_updNode)
  have s1: "stateOf ?g1 i = (if i = node then Some NodeVisited else stateOf ?g i)" for i
    using nid by (simp add: v1_def endVisit_def stateOf_updNode_const)
  have f1: "finOf ?g1 i = (if i = node then Some (time v + 1) else finOf ?g i)" for i
    using nid by (simp add: v1_def endVisit_def finOf_updNode_const)
  from fi have nc: "\<And>i. stateOf ?g i \<noteq> Some Cycle"
    and ed: "\<And>a b. hasEdge ?g a b \<Longrightarrow> stateOf ?g a = Some NodeVisited \<Longrightarrow>
               stateOf ?g b = Some NodeVisited \<and> the (finOf ?g b) < the (finOf ?g a)"
    unfolding fin_inv_def by blast+
  have "stateOf ?g1 i \<noteq> Some Cycle" for i using nc [of i] by (simp add: s1)
  moreover have "stateOf ?g1 b = Some NodeVisited \<and> the (finOf ?g1 b) < the (finOf ?g1 a)"
    if e: "hasEdge ?g1 a b" and a: "stateOf ?g1 a = Some NodeVisited" for a b
  proof (cases "a = node")
    case True
    from e True have "hasEdge g0 node b" by (simp add: hasEdge_def fr sg)
    from pr [OF this] have b: "stateOf ?g b = Some NodeVisited" .
    with na have bn: "b \<noteq> node" by auto
    from stateOf_Some_fin [OF b] obtain f where f: "finOf ?g b = Some f" by blast
    from time_invD(3) [OF ti b f] have "f \<le> time v" .
    with b bn f True show ?thesis by (simp add: s1 f1)
  next
    case False
    with e a have "hasEdge ?g a b" "stateOf ?g a = Some NodeVisited"
      by (simp_all add: hasEdge_def fr s1)
    from ed [OF this] have b: "stateOf ?g b = Some NodeVisited" "the (finOf ?g b) < the (finOf ?g a)"
      by simp_all
    with na have "b \<noteq> node" by auto
    with b False show ?thesis by (simp add: s1 f1)
  qed
  ultimately show ?thesis unfolding fin_inv_def v1_def [symmetric] by blast
qed

lemma dfsEdges_fin:
  assumes IH: "visit_fin g0 k"
  shows "dfs_inv g0 v (node # S) \<Longrightarrow> time_inv v \<Longrightarrow> set rest \<subseteq> set (succs g0 node) \<Longrightarrow>
         card (unv v) \<le> k \<Longrightarrow> fin_inv v \<Longrightarrow>
         (\<forall>b. hasEdge g0 node b \<longrightarrow> b \<in> set rest \<or> stateOf (graph v) b = Some NodeVisited) \<Longrightarrow>
         dfsEdges (dfsVisit k) node rest v = Some v' \<Longrightarrow> cycles v' = [] \<Longrightarrow> fin_inv v'"
proof (induction rest arbitrary: v)
  case Nil
  from Nil.prems(7) have "v' = endVisit v node" by simp
  with endVisit_fin [OF Nil.prems(1,2,5)] Nil.prems(6) show ?case by simp
next
  case (Cons m rest)
  note inv = Cons.prems(1) and ti = Cons.prems(2) and fi = Cons.prems(5)
    and run = Cons.prems(7) and cy = Cons.prems(8)
  from Cons.prems(3) have e: "hasEdge g0 node m" and rs: "set rest \<subseteq> set (succs g0 node)"
    by (simp_all add: hasEdge_def)
  from Cons.prems(6) have pr: "\<And>b. hasEdge g0 node b \<Longrightarrow>
      b = m \<or> b \<in> set rest \<or> stateOf (graph v) b = Some NodeVisited"
    by auto
  from run obtain nb where nb: "getNode (graph v) m = Some nb"
    by (cases "getNode (graph v) m") simp_all
  then have sm: "stateOf (graph v) m = Some (nstate nb)" by (simp add: stateOf_def)
  from fi sm have nc: "nstate nb \<noteq> Cycle" unfolding fin_inv_def by auto
  let ?step = "if nstate nb = NodeUnvisited
               then dfsVisit k (v\<lparr>graph := updNode (graph v) m (\<lambda>n. n\<lparr>nparent := Some node\<rparr>)\<rparr>) m
               else if nstate nb = Visiting
               then map_option (\<lambda>v'. v'\<lparr>cycleCount := cycleCount v' + 1\<rparr>) (highlightCycle v node m)
               else Some v"
  from run nb obtain v1 where v1: "?step = Some v1"
    by (cases ?step) simp_all
  have "\<exists>v1'. ?step = Some v1' \<and> dfs_inv g0 v1' (node # S) \<and> time_inv v1' \<and> unv v1' \<subseteq> unv v \<and>
          done_nodes v \<subseteq> done_nodes v1' \<and> stateOf (graph v1') m = Some NodeVisited \<and>
          (cycles v1' = [] \<longrightarrow> fin_inv v1')"
  proof (cases "nstate nb = NodeUnvisited")
    case True
    have en: "enter v m (node # S) = v\<lparr>graph := updNode (graph v) m (\<lambda>n. n\<lparr>nparent := Some node\<rparr>)\<rparr>"
      by (simp add: enter_def)
    from sm True have um: "stateOf (graph v) m = Some NodeUnvisited" by simp
    have hd: "hasEdge g0 (hd (node # S)) m" if "node # S \<noteq> []" using e by simp
    from dfsVisit_spec [of g0 k, unfolded visit_ok_def, rule_format, OF inv ti um hd Cons.prems(4)]
    obtain v2 where v2: "dfsVisit k (enter v m (node # S)) m = Some v2" "dfs_inv g0 v2 (node # S)"
      "time_inv v2" "stateOf (graph v2) m = Some NodeVisited" "unv v2 \<subseteq> unv v - {m}"
      "done_nodes v \<subseteq> done_nodes v2"
      by blast
    have "cycles v2 = [] \<longrightarrow> fin_inv v2"
      using IH [unfolded visit_fin_def, rule_format, OF inv ti um hd Cons.prems(4) fi v2(1)] by blast
    with v2 True show ?thesis unfolding en by auto
  next
    case False
    note nu = this
    show ?thesis
    proof (cases "nstate nb = Visiting")
      case True
      with nu v1 obtain v2 where v2: "highlightCycle v node m = Some v2"
        "v1 = v2\<lparr>cycleCount := cycleCount v2 + 1\<rparr>"
        by auto
      from highlightCycle_cycles [OF v2(1)] v2(2) have c1: "cycles v1 \<noteq> []" by simp
      have "cycles v1 = []"
      proof (cases "isRunning v1")
        case True
        with run nb v1 have "dfsEdges (dfsVisit k) node rest v1 = Some v'" by simp
        from dfsEdges_cycles [of "dfsVisit k", OF dfsVisit_cycles this cy] show ?thesis .
      next
        case False
        with run nb v1 cy show ?thesis by simp
      qed
      with c1 show ?thesis by simp
    next
      case False
      with nu nc have "nstate nb = NodeVisited" by (cases "nstate nb") simp_all
      with sm inv ti fi show ?thesis by simp
    qed
  qed
  with v1 have i1: "dfs_inv g0 v1 (node # S)" and t1: "time_inv v1" and u1: "unv v1 \<subseteq> unv v"
    and d1: "done_nodes v \<subseteq> done_nodes v1" and m1: "stateOf (graph v1) m = Some NodeVisited"
    and f1: "cycles v1 = [] \<longrightarrow> fin_inv v1"
    by auto
  from i1 have r1: "isRunning v1" unfolding dfs_inv_def by blast
  with run nb v1 have rest: "dfsEdges (dfsVisit k) node rest v1 = Some v'" by simp
  from dfsEdges_cycles [of "dfsVisit k", OF dfsVisit_cycles rest cy] f1 have fi1: "fin_inv v1" by simp
  from u1 have "card (unv v1) \<le> card (unv v)" by (intro card_mono) simp_all
  with Cons.prems(4) have c1: "card (unv v1) \<le> k" by simp
  have pr1: "\<forall>b. hasEdge g0 node b \<longrightarrow> b \<in> set rest \<or> stateOf (graph v1) b = Some NodeVisited"
  proof (intro allI impI)
    fix b assume "hasEdge g0 node b"
    from pr [OF this] m1 d1 show "b \<in> set rest \<or> stateOf (graph v1) b = Some NodeVisited"
      by (auto simp: done_nodes_def)
  qed
  from Cons.IH [OF i1 t1 rs c1 fi1 pr1 rest cy] show ?case .
qed

lemma dfsVisit_fin: "visit_fin g0 k"
proof (induction k)
  case 0
  show ?case unfolding visit_fin_def by simp
next
  case (Suc k)
  show ?case
    unfolding visit_fin_def
  proof (intro allI impI)
    fix v node S v'
    assume inv: "dfs_inv g0 v S" and ti: "time_inv v"
      and u: "stateOf (graph v) node = Some NodeUnvisited"
      and e: "S \<noteq> [] \<longrightarrow> hasEdge g0 (hd S) node" and c: "card (unv v) \<le> Suc k"
      and fi: "fin_inv v" and run: "dfsVisit (Suc k) (enter v node S) node = Some v'"
      and cy: "cycles v' = []"
    define v0 where "v0 = enter v node S"
    from inv have sg: "succs (graph v) = succs g0" unfolding dfs_inv_def by blast
    from u have "node \<in> set (ids (graph v0))" by (auto simp: v0_def dest: stateOf_Some_ids)
    then obtain n where n: "getNode (graph v0) node = Some n"
      using getNode_Some_iff [of "graph v0" node] by auto
    then have "map fst (neighbors n) = succs (graph v0) node" by (simp add: succs_def)
    also have "\<dots> = succs g0 node" by (simp add: v0_def sg)
    finally have sn: "map fst (neighbors n) = succs g0 node" .
    from beginVisit_spec [OF inv ti u e]
    have b: "dfs_inv g0 (beginVisit v0 node) (node # S)" "time_inv (beginVisit v0 node)"
      "unv (beginVisit v0 node) = unv v - {node}"
      by (simp_all add: v0_def)
    from beginVisit_fin [OF u fi] have bf: "fin_inv (beginVisit v0 node)" by (simp add: v0_def)
    from u have "node \<in> unv v" by (simp add: unv_def)
    then have "card (unv v - {node}) < card (unv v)" by (intro card_Diff1_less) simp_all
    with c b have c1: "card (unv (beginVisit v0 node)) \<le> k" by simp
    from run n sn have r: "dfsEdges (dfsVisit k) node (succs g0 node) (beginVisit v0 node) = Some v'"
      by (simp add: v0_def)
    have pr: "\<forall>b. hasEdge g0 node b \<longrightarrow>
        b \<in> set (succs g0 node) \<or> stateOf (graph (beginVisit v0 node)) b = Some NodeVisited"
      by (simp add: hasEdge_def)
    from dfsEdges_fin [OF Suc b(1,2) _ c1 bf pr r cy] show "fin_inv v'" by simp
  qed
qed

lemma runDFSLoop_fin:
  "dfs_inv g0 v [] \<Longrightarrow> time_inv v \<Longrightarrow> set ns \<subseteq> set (ids g0) \<Longrightarrow> card (unv v) \<le> fuel \<Longrightarrow>
   fin_inv v \<Longrightarrow> runDFSLoop fuel ns v = Some v' \<Longrightarrow> cycles v' = [] \<Longrightarrow> fin_inv v'"
proof (induction ns arbitrary: v)
  case Nil
  then show ?case by simp
next
  case (Cons node rest)
  note inv = Cons.prems(1) and ti = Cons.prems(2) and fi = Cons.prems(5)
    and run = Cons.prems(6) and cy = Cons.prems(7)
  from inv have np: "\<not> isPaused v" unfolding dfs_inv_def by blast
  from run obtain n where n: "getNode (graph v) node = Some n"
    by (cases "getNode (graph v) node") simp_all
  then have sn: "stateOf (graph v) node = Some (nstate n)" by (simp add: stateOf_def)
  from Cons.prems(3) have rs: "set rest \<subseteq> set (ids g0)" by simp
  show ?case
  proof (cases "nstate n = NodeUnvisited")
    case True
    with sn have u: "stateOf (graph v) node = Some NodeUnvisited" by simp
    have hd: "hasEdge g0 (hd []) node" if "([]::node_id list) \<noteq> []" using that by simp
    from dfsVisit_spec [of g0 fuel, unfolded visit_ok_def, rule_format, OF inv ti u hd Cons.prems(4)]
    obtain v1 where v1: "dfsVisit fuel v node = Some v1" "dfs_inv g0 v1 []" "time_inv v1"
      "unv v1 \<subseteq> unv v - {node}"
      by auto
    with run n True np have r: "runDFSLoop fuel rest v1 = Some v'" by simp
    from runDFSLoop_cycles [OF r cy] have c1: "cycles v1 = []" .
    from v1(1) have "dfsVisit fuel (enter v node []) node = Some v1" by simp
    from dfsVisit_fin [of g0 fuel, unfolded visit_fin_def, rule_format, OF inv ti u hd Cons.prems(4) fi this c1]
    have f1: "fin_inv v1" .
    from v1(4) have "card (unv v1) \<le> card (unv v)" by (intro card_mono) auto
    with Cons.prems(4) have "card (unv v1) \<le> fuel" by simp
    from Cons.IH [OF v1(2,3) rs this f1 r cy] show ?thesis .
  next
    case False
    with run n have "runDFSLoop fuel rest v = Some v'" by simp
    from Cons.IH [OF inv ti rs Cons.prems(4) fi this cy] show ?thesis .
  qed
qed

lemma prepareDFS_fin: "fin_inv (prepareDFS v)"
proof -
  have g: "graph (prepareDFS v) = resetGraph (graph v)" by (simp add: prepareDFS_def)
  show ?thesis unfolding fin_inv_def g by (simp add: resetGraph_fields)
qed

text \<open>
  Along a closed walk the finish times would decrease all the way round: when every node
  is finished and \<open>fin_inv\<close> holds, there is none.
\<close>

lemma successively_decreasing:
  "successively (\<lambda>a b. f b < f a) c \<Longrightarrow> c \<noteq> [] \<Longrightarrow> (f (last c) :: int) \<le> f (hd c)"
  by (induction "\<lambda>a b. (f b :: int) < f a" c rule: successively.induct) auto

lemma fin_inv_acyclic:
  assumes inv: "dfs_inv g0 v' []" and dn: "set (ids g0) \<subseteq> done_nodes v'" and fi: "fin_inv v'"
  shows "\<not> closedWalk g0 c"
proof
  assume c: "closedWalk g0 c"
  let ?f = "\<lambda>i. the (finOf (graph v') i)"
  from inv have sg: "succs (graph v') = succs g0" and idg: "ids (graph v') = ids g0"
    unfolding dfs_inv_def by blast+
  have dec: "?f b < ?f a" if "hasEdge g0 a b" for a b
  proof -
    from that have e: "hasEdge (graph v') a b" by (simp add: hasEdge_def sg)
    then obtain n where "getNode (graph v') a = Some n"
      by (cases "getNode (graph v') a") (auto simp: hasEdge_def succs_def)
    with getNode_Some_iff [of "graph v'" a] idg dn have "stateOf (graph v') a = Some NodeVisited"
      by (auto simp: done_nodes_def)
    with fi e show ?thesis unfolding fin_inv_def by blast
  qed
  from c have s: "successively (hasEdge g0) c" and ne: "c \<noteq> []" and l: "hasEdge g0 (last c) (hd c)"
    by (simp_all add: closedWalk_def)
  from s have "successively (\<lambda>a b. ?f b < ?f a) c"
    by (rule successively_mono) (rule dec)
  from successively_decreasing [OF this ne] dec [OF l] show False by simp
qed

lemma runDFS_finds_cycle:
  assumes "wf_graph (graph v)" "length (nodes (graph v)) \<le> fuel"
    and r: "runDFS fuel (prepareDFS v) = Some v'" and c: "closedWalk (graph v) c"
  shows "cycles v' \<noteq> []"
proof
  assume cy: "cycles v' = []"
  from prepareDFS_inv [OF assms(1)] assms(2)
  have p: "dfs_inv (graph v) (prepareDFS v) []" "time_inv (prepareDFS v)"
    "card (unv (prepareDFS v)) \<le> fuel" by simp_all
  have i: "map fst (nodes (graph (prepareDFS v))) = ids (graph v)"
    by (simp add: prepareDFS_def resetGraph_frame [unfolded ids_def] ids_def)
  from r have r': "runDFSLoop fuel (ids (graph v)) (prepareDFS v) = Some v'"
    unfolding runDFS_def i .
  have "set (ids (graph v)) \<subseteq> set (ids (graph v))" by simp
  from runDFSLoop_fin [OF p(1,2) this p(3) prepareDFS_fin r' cy] have fi: "fin_inv v'" .
  from runDFS_post [OF assms(1,2)] r have inv: "dfs_inv (graph v) v' []"
    and dn: "set (ids (graph v)) \<subseteq> done_nodes v'"
    by auto
  from fin_inv_acyclic [OF inv dn fi] c show False by blast
qed

section \<open>Complete runs of the search on the graph\<close>

lemma nodes_getNode:
  assumes "distinct (ids g)" "(i, n) \<in> set (nodes g)"
  shows "getNode g i = Some n"
  using assms by (simp add: getNode_def ids_def)

lemma final_nodes:
  assumes inv: "dfs_inv g0 v' []" and ti: "time_inv v'" and dn: "set (ids g0) \<subseteq> done_nodes v'"
    and m: "(i, n) \<in> set (nodes (graph v'))"
  shows "getNode (graph v') i = Some n \<and> nstate n = NodeVisited \<and> 0 < discoveryTime n \<and>
         discoveryTime n < finishTime n \<and> finishTime n \<le> time v'"
proof -
  from inv have idg: "ids (graph v') = ids g0" and wf: "wf_graph g0"
    unfolding dfs_inv_def by blast+
  then have d: "distinct (ids (graph v'))" by (simp add: wf_graph_def)
  from nodes_getNode [OF d m] have g: "getNode (graph v') i = Some n" .
  from m have "i \<in> set (ids (graph v'))" by (force simp: ids_def)
  with idg dn have s: "stateOf (graph v') i = Some NodeVisited" by (auto simp: done_nodes_def)
  with g have n: "nstate n = NodeVisited" by (simp add: stateOf_def)
  from g have df: "discOf (graph v') i = Some (discoveryTime n)" "finOf (graph v') i = Some (finishTime n)"
    by (simp_all add: discOf_def finOf_def)
  from s have "stateOf (graph v') i \<noteq> Some NodeUnvisited" by simp
  from time_invD(2) [OF ti this df(1)] time_invD(3) [OF ti s df(2)] time_invD(4) [OF ti s df]
  show ?thesis using g n by simp
qed

lemma final_timestamps_distinct:
  assumes inv: "dfs_inv g0 v' []" and ti: "time_inv v'" and dn: "set (ids g0) \<subseteq> done_nodes v'"
  shows "distinct (timestamps (graph v'))"
proof -
  let ?g = "graph v'"
  from inv have idg: "ids ?g = ids g0" and wf: "wf_graph g0"
    unfolding dfs_inv_def by blast+
  then have d: "distinct (ids ?g)" by (simp add: wf_graph_def)
  then have dn': "distinct (nodes ?g)" unfolding ids_def by (rule distinct_map [THEN iffD1, THEN conjunct1])
  have fact: "getNode ?g i = Some n \<and> stateOf ?g i = Some NodeVisited \<and>
              discOf ?g i = Some (discoveryTime n) \<and> finOf ?g i = Some (finishTime n)"
    if "(i, n) \<in> set (nodes ?g)" for i n
    using final_nodes [OF inv ti dn that] by (simp add: stateOf_def discOf_def finOf_def)
  have same: "n = m" if "(i, n) \<in> set (nodes ?g)" "(i, m) \<in> set (nodes ?g)" for i n m
    using fact [OF that(1)] fact [OF that(2)] by simp
  have i1: "inj_on (\<lambda>(i, n). discoveryTime n) (set (nodes ?g))"
  proof (rule inj_onI, clarify)
    fix i n j m
    assume a: "(i, n) \<in> set (nodes ?g)" "(j, m) \<in> set (nodes ?g)" "discoveryTime n = discoveryTime m"
    have "i = j"
    proof (rule ccontr)
      assume "i \<noteq> j"
      from time_invD(5) [OF ti this, of "discoveryTime n"] fact [OF a(1)] fact [OF a(2)] a(3)
      show False by simp
    qed
    with a same show "i = j \<and> n = m" by blast
  qed
  have i2: "inj_on (\<lambda>(i, n). finishTime n) (set (nodes ?g))"
  proof (rule inj_onI, clarify)
    fix i n j m
    assume a: "(i, n) \<in> set (nodes ?g)" "(j, m) \<in> set (nodes ?g)" "finishTime n = finishTime m"
    have "i = j"
    proof (rule ccontr)
      assume "i \<noteq> j"
      from time_invD(6) [OF ti this, of "finishTime n"] fact [OF a(1)] fact [OF a(2)] a(3)
      show False by simp
    qed
    with a same show "i = j \<and> n = m" by blast
  qed
  have dj: "discoveryTime n \<noteq> finishTime m"
    if "(i, n) \<in> set (nodes ?g)" "(j, m) \<in> set (nodes ?g)" for i n j m
    using time_invD(7) [OF ti, of i j "discoveryTime n"] fact [OF that(1)] fact [OF that(2)] by auto
  have "distinct (map (\<lambda>(i, n). discoveryTime n) (nodes ?g))"
    "distinct (map (\<lambda>(i, n). finishTime n) (nodes ?g))"
    using dn' i1 i2 by (simp_all add: distinct_map)
  moreover have "set (map (\<lambda>(i, n). discoveryTime n) (nodes ?g)) \<inter>
                 set (map (\<lambda>(i, n). finishTime n) (nodes ?g)) = {}"
    using dj by fastforce
  ultimately show ?thesis by (simp add: timestamps_def)
qed

text \<open>
  C2. On a graph with no cycle (no closed walk), a complete run of the DFS with no control
  call in between, started as \<open>startDFS\<close> starts it and given one unit of recursion depth
  per node, returns; it keeps the nodes, leaves every node in state visited with a
  discovery time below its finish time, both between 1 and the final value of the counter
  \<open>time\<close>, records no cycle (the list \<open>cycles\<close> is empty and \<open>cycleCount\<close> is 0), and all
  discovery and finish times together are pairwise distinct.
\<close>

theorem dfs_acyclic_run:
  assumes "wf_graph (graph v)" and "\<forall>c. \<not> closedWalk (graph v) c"
    and "length (nodes (graph v)) \<le> fuel"
  shows "\<exists>v'. runDFS fuel (prepareDFS v) = Some v' \<and>
           map fst (nodes (graph v')) = map fst (nodes (graph v)) \<and>
           (\<forall>(i, n)\<in>set (nodes (graph v')).
              nstate n = NodeVisited \<and> 0 < discoveryTime n \<and> discoveryTime n < finishTime n \<and>
              finishTime n \<le> time v') \<and>
           cycles v' = [] \<and> cycleCount v' = 0 \<and> distinct (timestamps (graph v'))"
proof -
  from runDFS_post [OF assms(1,3)] obtain v' where
    r: "runDFS fuel (prepareDFS v) = Some v'" and inv: "dfs_inv (graph v) v' []"
    and ti: "time_inv v'" and dn: "set (ids (graph v)) \<subseteq> done_nodes v'"
    by blast
  from inv have "ids (graph v') = ids (graph v)" unfolding dfs_inv_def by blast
  then have a: "map fst (nodes (graph v')) = map fst (nodes (graph v))" by (simp add: ids_def)
  have b: "\<forall>(i, n)\<in>set (nodes (graph v')).
              nstate n = NodeVisited \<and> 0 < discoveryTime n \<and> discoveryTime n < finishTime n \<and>
              finishTime n \<le> time v'"
    using final_nodes [OF inv ti dn] by blast
  from inv have cw: "\<forall>c\<in>set (cycles v'). closedWalk (graph v) c" and cc: "cycleCount v' = length (cycles v')"
    unfolding dfs_inv_def by blast+
  have c: "cycles v' = []"
  proof (cases "cycles v'")
    case (Cons c cs)
    with cw have "closedWalk (graph v) c" by simp
    with assms(2) show ?thesis by blast
  qed simp
  from r a b c cc final_timestamps_distinct [OF inv ti dn] show ?thesis by simp
qed

text \<open>
  C3. A back edge, an edge examined while its target is being visited, closes a cycle
  with the parent chain of the visit, and on a graph with a cycle the traversal has to
  meet such an edge: the graphs with a back edge are the graphs with a cycle, that is, with
  a closed walk. After a complete run on a graph with a closed walk the list \<open>cycles\<close> is
  not empty. On every graph, every recorded cycle is a closed walk of the graph, a
  non-empty list of nodes, each with an edge to the next and the last with an edge to the
  first, and \<open>cycleCount\<close>, which is incremented exactly where an edge is examined whose
  target is in state visiting, is the number of recorded cycles.
\<close>

theorem dfs_back_edge_records_closed_walk:
  assumes "wf_graph (graph v)" and "length (nodes (graph v)) \<le> fuel"
  shows "\<exists>v'. runDFS fuel (prepareDFS v) = Some v' \<and>
           length (cycles v') = cycleCount v' \<and>
           (0 < cycleCount v' \<longrightarrow> cycles v' \<noteq> []) \<and>
           ((\<exists>c. closedWalk (graph v) c) \<longrightarrow> cycles v' \<noteq> []) \<and>
           (\<forall>c\<in>set (cycles v'). closedWalk (graph v) c)"
proof -
  from runDFS_post [OF assms] obtain v' where
    r: "runDFS fuel (prepareDFS v) = Some v'" and inv: "dfs_inv (graph v) v' []"
    by blast
  from inv have cw: "\<forall>c\<in>set (cycles v'). closedWalk (graph v) c" and cc: "cycleCount v' = length (cycles v')"
    unfolding dfs_inv_def by blast+
  have "(\<exists>c. closedWalk (graph v) c) \<longrightarrow> cycles v' \<noteq> []"
    using runDFS_finds_cycle [OF assms r] by blast
  with r cw cc show ?thesis by auto
qed

text \<open>
  C10. After a complete run every node has state visited, so none keeps the state cycle
  that \<open>highlightCycle\<close> gave it, while the edges along every recorded cycle (each node to
  the next and the last to the first, the pairs \<open>highlightCycle\<close> marks) still have state
  cycle.
\<close>

theorem dfs_leaves_no_cycle_node:
  assumes "wf_graph (graph v)" and "length (nodes (graph v)) \<le> fuel"
  shows "\<exists>v'. runDFS fuel (prepareDFS v) = Some v' \<and>
           (\<forall>(i, n)\<in>set (nodes (graph v')). nstate n = NodeVisited) \<and>
           (\<forall>c\<in>set (cycles v'). marked (graph v') c)"
proof -
  from runDFS_post [OF assms] obtain v' where
    r: "runDFS fuel (prepareDFS v) = Some v'" and inv: "dfs_inv (graph v) v' []"
    and ti: "time_inv v'" and dn: "set (ids (graph v)) \<subseteq> done_nodes v'"
    by blast
  have "\<forall>(i, n)\<in>set (nodes (graph v')). nstate n = NodeVisited"
    using final_nodes [OF inv ti dn] by blast
  moreover from inv have "\<forall>c\<in>set (cycles v'). marked (graph v') c"
    unfolding dfs_inv_def by blast
  ultimately show ?thesis using r by blast
qed

lemma edges_allD:
  assumes "edges_all P g" "hasEdge g a b"
  shows "P a b"
proof -
  from assms(2) obtain n where n: "getNode g a = Some n" "b \<in> fst ` set (neighbors n)"
    by (cases "getNode g a") (auto simp: hasEdge_def succs_def)
  then have "(a, n) \<in> set (nodes g)" by (auto simp: getNode_def dest: map_of_SomeD)
  with assms(1) n(2) show ?thesis by (fastforce simp: edges_all_def list_all_iff)
qed

lemma wf_graphI: "distinct (ids g) \<Longrightarrow> edges_all (\<lambda>a b. b \<in> set (ids g)) g \<Longrightarrow> wf_graph g"
  unfolding wf_graph_def using edges_allD [of "\<lambda>a b. b \<in> set (ids g)" g] by blast

lemma successively_less_hd_last:
  "successively (<) (c :: nat list) \<Longrightarrow> c \<noteq> [] \<Longrightarrow> hd c \<le> last c"
  by (induction "(<) :: nat \<Rightarrow> nat \<Rightarrow> bool" c rule: successively.induct) auto

lemma increasing_edges_acyclic:
  assumes "edges_all (<) g"
  shows "\<not> closedWalk g c"
proof
  assume c: "closedWalk g c"
  then have "successively (hasEdge g) c" "c \<noteq> []" "hasEdge g (last c) (hd c)"
    by (simp_all add: closedWalk_def)
  from this(1) have "successively (<) c"
    by (rule successively_mono) (rule edges_allD [OF assms])
  from successively_less_hd_last [OF this \<open>c \<noteq> []\<close>] edges_allD [OF assms \<open>hasEdge g (last c) (hd c)\<close>]
  show False by simp
qed

text \<open>The graph with edges 0\<rightarrow>1, 0\<rightarrow>2, 1\<rightarrow>2 satisfies the hypotheses of C2.\<close>

theorem dfs_acyclic_run_witness:
  "wf_graph (graph (newDFS dag3)) \<and> (\<forall>c. \<not> closedWalk (graph (newDFS dag3)) c) \<and>
   length (nodes (graph (newDFS dag3))) \<le> 3 \<and>
   (\<exists>v'. runDFS 3 (prepareDFS (newDFS dag3)) = Some v' \<and>
         map fst (nodes (graph v')) = map fst (nodes (graph (newDFS dag3))) \<and>
         cycles v' = [] \<and> cycleCount v' = 0 \<and> distinct (timestamps (graph v')))"
proof -
  have w: "wf_graph (graph (newDFS dag3))" by (rule wf_graphI; code_simp)
  have "edges_all (<) (graph (newDFS dag3))" by code_simp
  then have a: "\<forall>c. \<not> closedWalk (graph (newDFS dag3)) c"
    using increasing_edges_acyclic by blast
  have l: "length (nodes (graph (newDFS dag3))) \<le> 3" by code_simp
  from dfs_acyclic_run [OF w a l] w a l show ?thesis by blast
qed

text \<open>
  The triangle 0\<rightarrow>1, 1\<rightarrow>2, 2\<rightarrow>0, for C3: it has the closed walk 0, 1, 2, so a cycle is
  recorded; the run records one cycle, through all three nodes.
\<close>

theorem dfs_back_edge_records_closed_walk_witness:
  "wf_graph (graph (newDFS triangle)) \<and> length (nodes (graph (newDFS triangle))) \<le> 3 \<and>
   closedWalk (graph (newDFS triangle)) [0, 1, 2] \<and>
   map_option cycles (runDFS 3 (prepareDFS (newDFS triangle))) = Some [[1, 2, 0]] \<and>
   closedWalk (graph (newDFS triangle)) [1, 2, 0] \<and>
   (\<exists>v'. runDFS 3 (prepareDFS (newDFS triangle)) = Some v' \<and>
         length (cycles v') = cycleCount v' \<and> cycles v' \<noteq> [])"
proof -
  have w: "wf_graph (graph (newDFS triangle))" by (rule wf_graphI; code_simp)
  have l: "length (nodes (graph (newDFS triangle))) \<le> 3" by code_simp
  have t: "closedWalk (graph (newDFS triangle)) [0, 1, 2]" by code_simp
  have c: "map_option cycles (runDFS 3 (prepareDFS (newDFS triangle))) = Some [[1, 2, 0]]"
    by code_simp
  from dfs_back_edge_records_closed_walk [OF w l] obtain v' where
    v': "runDFS 3 (prepareDFS (newDFS triangle)) = Some v'" "length (cycles v') = cycleCount v'"
      "(\<exists>c. closedWalk (graph (newDFS triangle)) c) \<longrightarrow> cycles v' \<noteq> []"
      "\<forall>c\<in>set (cycles v'). closedWalk (graph (newDFS triangle)) c"
    by blast
  from v'(3) t have ne: "cycles v' \<noteq> []" by blast
  from c v'(1) have cy: "cycles v' = [[1, 2, 0]]" by simp
  with v'(4) have "closedWalk (graph (newDFS triangle)) [1, 2, 0]" by simp
  with w l t c v'(1,2) ne show ?thesis by blast
qed

text \<open>Two nodes with the edges 0\<rightarrow>0, 0\<rightarrow>1, 1\<rightarrow>0, for C10.\<close>

theorem dfs_leaves_no_cycle_node_witness:
  "wf_graph (graph (newDFS selfLoopGraph2)) \<and> length (nodes (graph (newDFS selfLoopGraph2))) \<le> 2 \<and>
   map_option cycles (runDFS 2 (prepareDFS (newDFS selfLoopGraph2))) = Some [[0]] \<and>
   (\<exists>v'. runDFS 2 (prepareDFS (newDFS selfLoopGraph2)) = Some v' \<and>
         marked (graph v') [0] \<and>
         map (\<lambda>(i, n). nstate n) (nodes (graph v')) = [NodeVisited, NodeVisited])"
proof -
  have w: "wf_graph (graph (newDFS selfLoopGraph2))" by (rule wf_graphI; code_simp)
  have l: "length (nodes (graph (newDFS selfLoopGraph2))) \<le> 2" by code_simp
  have c: "map_option cycles (runDFS 2 (prepareDFS (newDFS selfLoopGraph2))) = Some [[0]]"
    by code_simp
  have s: "map_option (\<lambda>v'. map (\<lambda>(i, n). nstate n) (nodes (graph v')))
             (runDFS 2 (prepareDFS (newDFS selfLoopGraph2))) = Some [NodeVisited, NodeVisited]"
    by code_simp
  from dfs_leaves_no_cycle_node [OF w l] obtain v' where
    v': "runDFS 2 (prepareDFS (newDFS selfLoopGraph2)) = Some v'"
      "\<forall>c\<in>set (cycles v'). marked (graph v') c"
    by blast
  from c v'(1) have "cycles v' = [[0]]" by simp
  with v'(2) have "marked (graph v') [0]" by simp
  with w l c s v'(1) show ?thesis by auto
qed

text \<open>
  C9. Two nodes with the edges 0\<rightarrow>1, 1\<rightarrow>0, 0\<rightarrow>0 added in this order. The visit of node 0
  first follows 0\<rightarrow>1; the visit of node 1 meets the back edge 1\<rightarrow>0, and \<open>highlightCycle\<close>
  sets the state of the nodes 1 and 0 to cycle. When the visit of node 0 then examines its
  self-loop, node 0 is still being visited but its state is cycle, not visiting: the
  self-loop is not recorded. The run ends with the single cycle [1, 0].
\<close>

theorem dfs_self_loop_not_recorded:
  "hasEdge selfLoopGraph 0 0 \<and>
   map_option cycles (runDFS 2 (prepareDFS (newDFS selfLoopGraph))) = Some [[1, 0]] \<and>
   map_option cycleCount (runDFS 2 (prepareDFS (newDFS selfLoopGraph))) = Some 1"
  by code_simp

text \<open>
  C8. A run on the scenario grid is started and waits in the delay of its first turn;
  \<open>reset()\<close> is called there. The loop of \<open>runBFS\<close> tests the queue and \<open>isPaused\<close> only,
  and \<open>reset\<close> leaves \<open>isPaused\<close> false, so the run goes on for all its 21 turns on the grid
  that \<open>reset\<close> has just cleared and returns the complete path, with \<open>isRunning\<close> false
  all the while.
\<close>

theorem bfs_runs_on_after_reset:
  "map_option (\<lambda>(v', r). (isRunning v', pathFound r, visitedCount v', path r))
     (case bfsInit (prepareBFS vis5) (1, 1) of
        (v0, queue, visited) \<Rightarrow> bfsLoop (resetBFS v0) queue visited) =
   Some (False, True, 21, [(1, 1), (2, 1), (3, 1), (3, 2), (3, 3)])"
  by code_simp

end
